theory Spec2Isabelle
  imports Complex_Main
begin

section \<open>RLE mask codec\<close>

text \<open>
  A \<^verbatim>\<open>Uint8Array\<close> is a list of bytes, a \<^verbatim>\<open>Uint32Array\<close> a list of naturals below
  \<open>2 ^ 32\<close>. Storing a number into a \<^verbatim>\<open>Uint32Array\<close> keeps it modulo \<open>2 ^ 32\<close>.
\<close>

definition u32 :: "nat \<Rightarrow> nat" where
  "u32 v = v mod 2 ^ 32"

text \<open>
  The scan of \<^verbatim>\<open>encodeMaskToRLE\<close>: the remaining mask entries, the loop index \<open>i\<close>,
  and the three loop variables \<open>inRun\<close>, \<open>runStart\<close> and \<open>runs\<close>. When the entries are
  used up, \<open>i\<close> is \<^verbatim>\<open>mask.length\<close> and the last run is closed.
\<close>

fun encodeLoop :: "nat list \<Rightarrow> nat \<Rightarrow> bool \<Rightarrow> nat \<Rightarrow> nat list \<Rightarrow> nat list" where
  "encodeLoop [] i inRun runStart runs =
     (if inRun then runs @ [runStart, i - runStart] else runs)"
| "encodeLoop (m # ms) i inRun runStart runs =
     (let isSelected = (m > 0) in
      if isSelected \<and> \<not> inRun then encodeLoop ms (i + 1) True i runs
      else if \<not> isSelected \<and> inRun
        then encodeLoop ms (i + 1) False runStart (runs @ [runStart, i - runStart])
      else encodeLoop ms (i + 1) inRun runStart runs)"

definition encodeMaskToRLE :: "nat list \<Rightarrow> nat list" where
  "encodeMaskToRLE msk = map u32 (encodeLoop msk 0 False 0 [])"

text \<open>The inner loop of \<^verbatim>\<open>decodeMaskFromRLE\<close>: \<^verbatim>\<open>mask[j] = 1\<close> for \<open>start \<le> j < end\<close>.\<close>

definition fillRun :: "nat list \<Rightarrow> nat \<Rightarrow> nat \<Rightarrow> nat list" where
  "fillRun msk start end = fold (\<lambda>j m. m[j := 1]) [start..<end] msk"

text \<open>
  The outer loop reads the array two entries at a time. With an odd number of entries the
  last \<^verbatim>\<open>rle[i + 1]\<close> is \<^verbatim>\<open>undefined\<close>, the end of the run is \<^verbatim>\<open>NaN\<close> and the inner
  loop does not run.
\<close>

fun decodeLoop :: "nat list \<Rightarrow> nat \<Rightarrow> nat list \<Rightarrow> nat list" where
  "decodeLoop (start # len # rest) maskSize msk =
     decodeLoop rest maskSize (fillRun msk start (min (start + len) maskSize))"
| "decodeLoop [start] maskSize msk = msk"
| "decodeLoop [] maskSize msk = msk"

definition decodeMaskFromRLE :: "nat list \<Rightarrow> nat \<Rightarrow> nat list" where
  "decodeMaskFromRLE rle maskSize = decodeLoop rle maskSize (replicate maskSize 0)"

text \<open>\<^verbatim>\<open>mergeRLEMasks\<close>: decode both, OR entry by entry into the first, encode again.\<close>

definition orMasks :: "nat list \<Rightarrow> nat list \<Rightarrow> nat \<Rightarrow> nat list" where
  "orMasks mask1 mask2 maskSize =
     fold (\<lambda>i m. m[i := or (m ! i) (mask2 ! i)]) [0..<maskSize] mask1"

definition mergeRLEMasks :: "nat list \<Rightarrow> nat list \<Rightarrow> nat \<Rightarrow> nat list" where
  "mergeRLEMasks rle1 rle2 maskSize =
     (let mask1 = decodeMaskFromRLE rle1 maskSize;
          mask2 = decodeMaskFromRLE rle2 maskSize
      in encodeMaskToRLE (orMasks mask1 mask2 maskSize))"

section \<open>Typed arrays, image buffers and colour distance\<close>

text \<open>
  A typed array read outside the array is \<^verbatim>\<open>undefined\<close>, a write outside it is ignored.
  Indices are JavaScript numbers, here integers, and may be negative.
\<close>

definition rd :: "nat list \<Rightarrow> int \<Rightarrow> nat option" where
  "rd a i = (if 0 \<le> i \<and> i < int (length a) then Some (a ! nat i) else None)"

definition wr :: "nat list \<Rightarrow> int \<Rightarrow> nat \<Rightarrow> nat list" where
  "wr a i v = (if 0 \<le> i \<and> i < int (length a) then a[nat i := v] else a)"

text \<open>
  A number that went through an \<^verbatim>\<open>undefined\<close> read is \<^verbatim>\<open>NaN\<close> after any arithmetic:
  \<open>None\<close> stands for both. A colour channel read from a buffer is such a number.
\<close>

type_synonym num = "int option"

definition channel :: "nat list \<Rightarrow> int \<Rightarrow> num" where
  "channel a i = map_option int (rd a i)"

definition addNum :: "num \<Rightarrow> num \<Rightarrow> num" where
  "addNum a b = (case (a, b) of (Some u, Some v) \<Rightarrow> Some (u + v) | _ \<Rightarrow> None)"

text \<open>\<^verbatim>\<open>Math.round\<close> rounds to the nearest integer, halves upwards.\<close>

definition mathRound :: "real \<Rightarrow> int" where
  "mathRound v = \<lfloor>v + 1 / 2\<rfloor>"

text \<open>
  \<^verbatim>\<open>i << 2\<close>: the operand is taken as a signed 32-bit integer and so is the result,
  so the product by four wraps around.
\<close>

definition toInt32 :: "int \<Rightarrow> int" where
  "toInt32 v = (v + 2 ^ 31) mod 2 ^ 32 - 2 ^ 31"

definition shl2 :: "int \<Rightarrow> int" where
  "shl2 i = toInt32 (toInt32 i * 4)"

text \<open>
  \<^verbatim>\<open>ImageData\<close>: width, height and the RGBA bytes, four per pixel in row-major order.
  The browser only builds image data with positive sides and \<open>4 * width * height\<close> bytes.
\<close>

record ImageData =
  width :: nat
  height :: nat
  data :: "nat list"

definition validImageData :: "ImageData \<Rightarrow> bool" where
  "validImageData img =
     (0 < width img \<and> 0 < height img \<and> length (data img) = 4 * width img * height img
      \<and> list_all (\<lambda>v. v < 256) (data img))"

text \<open>
  \<^verbatim>\<open>colorDistanceSquared\<close> with the weights \<^verbatim>\<open>SQUARED_COLOR_WEIGHTS = {r: 2, g: 4, b: 3}\<close>.
  The result is \<^verbatim>\<open>NaN\<close> as soon as one argument is.
\<close>

definition colorDistanceSquared :: "num \<Rightarrow> num \<Rightarrow> num \<Rightarrow> num \<Rightarrow> num \<Rightarrow> num \<Rightarrow> num" where
  "colorDistanceSquared r1 g1 b1 r2 g2 b2 =
     (case (r1, g1, b1, r2, g2, b2) of
        (Some r1', Some g1', Some b1', Some r2', Some g2', Some b2') \<Rightarrow>
          (let rDiff = r1' - r2'; gDiff = g1' - g2'; bDiff = b1' - b2'
           in Some (2 * rDiff * rDiff + 4 * gDiff * gDiff + 3 * bDiff * bDiff))
      | _ \<Rightarrow> None)"

text \<open>Comparisons with \<^verbatim>\<open>NaN\<close> are false.\<close>

definition numLe :: "num \<Rightarrow> real \<Rightarrow> bool" where
  "numLe a c = (case a of Some v \<Rightarrow> real_of_int v \<le> c | None \<Rightarrow> False)"

definition numLt :: "num \<Rightarrow> real \<Rightarrow> bool" where
  "numLt a c = (case a of Some v \<Rightarrow> real_of_int v < c | None \<Rightarrow> False)"

section \<open>Magic selection: the flood fill\<close>

datatype RegionMode = Keep | Remove

record Bounds =
  bounds_x :: int
  bounds_y :: int
  bounds_width :: nat
  bounds_height :: nat

text \<open>
  \<^verbatim>\<open>MagicRegion\<close> without its \<^verbatim>\<open>id\<close>, which is a fresh random UUID and takes no part in
  any computation.
\<close>

record MagicRegion =
  maskRLE :: "nat list"
  bounds :: Bounds
  pixelCount :: nat
  averageColor :: "num \<times> num \<times> num"
  regionMode :: RegionMode

text \<open>
  The variables of the fill loop. The stack holds the pushed coordinate pairs, the most
  recently pushed pair first: \<^verbatim>\<open>stack.push(x, y)\<close> is a cons, the two \<^verbatim>\<open>stack.pop()\<close>
  take the head.
\<close>

record FillState =
  visited :: "nat list"
  selected :: "nat list"
  stack :: "(int \<times> int) list"
  minX :: int
  maxX :: int
  minY :: int
  maxY :: int
  totalR :: num
  totalG :: num
  totalB :: num
  count :: nat

text \<open>
  One neighbour check: \<^verbatim>\<open>if (!visited[nIdx]) { visited[nIdx] = 1; stack.push(nx, ny); }\<close>.
  An \<^verbatim>\<open>undefined\<close> read counts as not visited.
\<close>

definition visit :: "FillState \<Rightarrow> int \<Rightarrow> int \<times> int \<Rightarrow> FillState" where
  "visit s nIdx p =
     (if rd (visited s) nIdx = None \<or> rd (visited s) nIdx = Some 0
      then s\<lparr>visited := wr (visited s) nIdx 1, stack := p # stack s\<rparr>
      else s)"

text \<open>
  The accepted pixel \<open>(x, y)\<close> with channels \<open>r\<close>, \<open>g\<close>, \<open>b\<close>: it is marked as selected and
  counted, the four bounds are updated (\<^verbatim>\<open>if (x < minX) minX = x\<close> and so on) and its colour
  is added to the totals.
\<close>

definition accept :: "int \<Rightarrow> int \<Rightarrow> int \<Rightarrow> num \<Rightarrow> num \<Rightarrow> num \<Rightarrow> FillState \<Rightarrow> FillState" where
  "accept w x y r g b s =
     s\<lparr>selected := wr (selected s) (y * w + x) 1,
       count := count s + 1,
       minX := (if x < minX s then x else minX s),
       maxX := (if x > maxX s then x else maxX s),
       minY := (if y < minY s then y else minY s),
       maxY := (if y > maxY s then y else maxY s),
       totalR := addNum (totalR s) r,
       totalG := addNum (totalG s) g,
       totalB := addNum (totalB s) b\<rparr>"

text \<open>The four neighbour checks of an accepted pixel: left, right, up, down.\<close>

definition neighbours :: "int \<Rightarrow> int \<Rightarrow> int \<Rightarrow> int \<Rightarrow> FillState \<Rightarrow> FillState" where
  "neighbours w h x y s =
     (let pixelIdx = y * w + x;
          s1 = (if x > 0 then visit s (pixelIdx - 1) (x - 1, y) else s);
          s2 = (if x < w - 1 then visit s1 (pixelIdx + 1) (x + 1, y) else s1);
          s3 = (if y > 0 then visit s2 (pixelIdx - w) (x, y - 1) else s2)
      in (if y < h - 1 then visit s3 (pixelIdx + w) (x, y + 1) else s3))"

text \<open>
  The body of \<^verbatim>\<open>while (stack.length > 0)\<close>: pop a pair, read its pixel, compare its
  squared distance to the seed colour with the squared tolerance threshold.
\<close>

definition fillStep :: "ImageData \<Rightarrow> num \<times> num \<times> num \<Rightarrow> real \<Rightarrow> FillState \<Rightarrow> FillState" where
  "fillStep img seed toleranceThresholdSq s =
     (case stack s of
        [] \<Rightarrow> s
      | (x, y) # rest \<Rightarrow>
          (let idx = shl2 (y * int (width img) + x);
               r = channel (data img) idx;
               g = channel (data img) (idx + 1);
               b = channel (data img) (idx + 2);
               distSq = colorDistanceSquared r g b (fst seed) (fst (snd seed)) (snd (snd seed))
           in if numLe distSq toleranceThresholdSq
              then neighbours (int (width img)) (int (height img)) x y
                     (accept (int (width img)) x y r g b (s\<lparr>stack := rest\<rparr>))
              else s\<lparr>stack := rest\<rparr>))"

text \<open>The loop itself; it returns when the stack is empty.\<close>

partial_function (option) fillLoop ::
  "ImageData \<Rightarrow> num \<times> num \<times> num \<Rightarrow> real \<Rightarrow> FillState \<Rightarrow> FillState option" where
  "fillLoop img seed toleranceThresholdSq s =
     (if stack s = [] then Some s
      else fillLoop img seed toleranceThresholdSq (fillStep img seed toleranceThresholdSq s))"

declare fillLoop.simps [code]

text \<open>
  The mask relative to the bounds: for every row and column of the bounding box,
  \<^verbatim>\<open>if (selected[srcRowOffset + x]) mask[dstRowOffset + x] = 1\<close>.
\<close>

definition truthy :: "nat option \<Rightarrow> bool" where
  "truthy v = (case v of Some n \<Rightarrow> n \<noteq> 0 | None \<Rightarrow> False)"

definition boundsMask :: "nat list \<Rightarrow> int \<Rightarrow> int \<Rightarrow> int \<Rightarrow> int \<Rightarrow> int \<Rightarrow> nat list" where
  "boundsMask sel w mnX mxX mnY mxY =
     (let boundsWidth = mxX - mnX + 1;
          boundsHeight = mxY - mnY + 1
      in fold (\<lambda>y msk.
           (let srcRowOffset = y * w;
                dstRowOffset = (y - mnY) * boundsWidth - mnX
            in fold (\<lambda>x msk.
                 if truthy (rd sel (srcRowOffset + x)) then wr msk (dstRowOffset + x) 1 else msk)
               [mnX..mxX] msk))
         [mnY..mxY] (replicate (nat (boundsWidth * boundsHeight)) 0))"

text \<open>\<^verbatim>\<open>pixelCount > 0 ? Math.round(total / pixelCount) : seed\<close>, one channel.\<close>

definition average :: "num \<Rightarrow> nat \<Rightarrow> num \<Rightarrow> num" where
  "average tot n seedChannel =
     (if n > 0 then map_option (\<lambda>t. mathRound (real_of_int t / real n)) tot else seedChannel)"

text \<open>
  \<^verbatim>\<open>magicSelect\<close>. The tolerance is a real number, and \<^verbatim>\<open>tolerance * 4.42\<close> and its square
  are computed exactly. \<open>None\<close> means that the fill loop does not return.
\<close>

definition magicSelect :: "ImageData \<Rightarrow> int \<Rightarrow> int \<Rightarrow> real \<Rightarrow> MagicRegion option" where
  "magicSelect img startX startY tolerance =
     (let w = int (width img);
          totalPixels = width img * height img;
          seedIdx = shl2 (startY * w + startX);
          seedR = channel (data img) seedIdx;
          seedG = channel (data img) (seedIdx + 1);
          seedB = channel (data img) (seedIdx + 2);
          toleranceThreshold = tolerance * 4.42;
          toleranceThresholdSq = toleranceThreshold * toleranceThreshold;
          s0 = \<lparr>visited = wr (replicate totalPixels 0) (startY * w + startX) 1,
                selected = replicate totalPixels 0,
                stack = [(startX, startY)],
                minX = startX, maxX = startX, minY = startY, maxY = startY,
                totalR = Some 0, totalG = Some 0, totalB = Some 0, count = 0\<rparr>
      in case fillLoop img (seedR, seedG, seedB) toleranceThresholdSq s0 of
           None \<Rightarrow> None
         | Some s \<Rightarrow>
             (let boundsWidth = maxX s - minX s + 1;
                  boundsHeight = maxY s - minY s + 1;
                  msk = boundsMask (selected s) w (minX s) (maxX s) (minY s) (maxY s)
              in Some \<lparr>maskRLE = encodeMaskToRLE msk,
                       bounds = \<lparr>bounds_x = minX s, bounds_y = minY s,
                                 bounds_width = nat boundsWidth, bounds_height = nat boundsHeight\<rparr>,
                       pixelCount = count s,
                       averageColor = (average (totalR s) (count s) seedR,
                                       average (totalG s) (count s) seedG,
                                       average (totalB s) (count s) seedB),
                       regionMode = Remove\<rparr>))"

text \<open>
  The scenario buffer: 4 by 4 pixels, all opaque white except an opaque black pixel at
  \<open>(2, 2)\<close>.
\<close>

definition whiteWithBlackPixel :: ImageData where
  "whiteWithBlackPixel =
     \<lparr>width = 4, height = 4,
      data = [255, 255, 255, 255,  255, 255, 255, 255,  255, 255, 255, 255,  255, 255, 255, 255,
              255, 255, 255, 255,  255, 255, 255, 255,  255, 255, 255, 255,  255, 255, 255, 255,
              255, 255, 255, 255,  255, 255, 255, 255,  0, 0, 0, 255,        255, 255, 255, 255,
              255, 255, 255, 255,  255, 255, 255, 255,  255, 255, 255, 255,  255, 255, 255, 255]\<rparr>"

section \<open>Dominant colour and automatic threshold\<close>

text \<open>
  Numbers that the source computes in floating point (square roots, quotients, the
  threshold and tolerance settings) are real numbers here and the arithmetic on them is
  exact; the rounding of binary64 is not modelled.
\<close>

type_synonym rgb = "num \<times> num \<times> num"

text \<open>The three colour channels of the pixel whose first byte is at index \<open>idx\<close>.\<close>

definition sampleAt :: "nat list \<Rightarrow> int \<Rightarrow> rgb" where
  "sampleAt d idx = (channel d idx, channel d (idx + 1), channel d (idx + 2))"

text \<open>
  One corner block of \<^verbatim>\<open>detectDominantColor\<close>: rows \<open>y0 \<dots> y0 + sampleSize - 1\<close>, in each row
  the columns \<open>x0 \<dots> x0 + sampleSize - 1\<close>, each sample read at \<^verbatim>\<open>(y * width + x) * 4\<close>.
\<close>

definition cornerBlock :: "ImageData \<Rightarrow> int \<Rightarrow> int \<Rightarrow> int \<Rightarrow> rgb list" where
  "cornerBlock img sampleSize x0 y0 =
     concat (map (\<lambda>y. map (\<lambda>x. sampleAt (data img) ((y * int (width img) + x) * 4))
                          [x0..x0 + sampleSize - 1])
                 [y0..y0 + sampleSize - 1])"

text \<open>
  The colour map: keys in insertion order, as a JavaScript \<^verbatim>\<open>Map\<close> iterates them. A key is
  the triple of quantised channels (the source joins them into a string); an entry is
  \<^verbatim>\<open>{count, r, g, b}\<close>.
\<close>

type_synonym colorEntry = "nat \<times> num \<times> num \<times> num"

definition quantize :: "num \<Rightarrow> num" where
  "quantize v = map_option (\<lambda>c. (c div 8) * 8) v"

fun colorMapAdd :: "rgb \<Rightarrow> rgb \<Rightarrow> (rgb \<times> colorEntry) list \<Rightarrow> (rgb \<times> colorEntry) list" where
  "colorMapAdd key (r, g, b) [] = [(key, (1, r, g, b))]"
| "colorMapAdd key (r, g, b) ((k, (n, er, eg, eb)) # rest) =
     (if k = key then (k, (n + 1, addNum er r, addNum eg g, addNum eb b)) # rest
      else (k, (n, er, eg, eb)) # colorMapAdd key (r, g, b) rest)"

definition addSample :: "(rgb \<times> colorEntry) list \<Rightarrow> rgb \<Rightarrow> (rgb \<times> colorEntry) list" where
  "addSample colorMap smp =
     (case smp of (r, g, b) \<Rightarrow> colorMapAdd (quantize r, quantize g, quantize b) (r, g, b) colorMap)"

text \<open>The search for the entry with the highest count; a later entry wins only if larger.\<close>

fun mostCommon :: "(rgb \<times> colorEntry) list \<Rightarrow> nat \<Rightarrow> rgb \<Rightarrow> rgb" where
  "mostCommon [] maxCount dominantColor = dominantColor"
| "mostCommon ((k, (n, er, eg, eb)) # rest) maxCount dominantColor =
     (if n > maxCount
      then mostCommon rest n
             (map_option (\<lambda>t. mathRound (real_of_int t / real n)) er,
              map_option (\<lambda>t. mathRound (real_of_int t / real n)) eg,
              map_option (\<lambda>t. mathRound (real_of_int t / real n)) eb)
      else mostCommon rest maxCount dominantColor)"

definition detectDominantColor :: "ImageData \<Rightarrow> rgb" where
  "detectDominantColor img =
     (let w = int (width img);
          h = int (height img);
          sampleSize = min 20 (min w h div 10);
          cornerSamples =
            cornerBlock img sampleSize 0 0 @ cornerBlock img sampleSize (w - sampleSize) 0 @
            cornerBlock img sampleSize 0 (h - sampleSize) @
            cornerBlock img sampleSize (w - sampleSize) (h - sampleSize);
          colorMap = foldl addSample [] cornerSamples
      in mostCommon colorMap 0 (Some 255, Some 255, Some 255))"

text \<open>\<^verbatim>\<open>colorDistance\<close>: the square root of the squared distance.\<close>

definition colorDistance :: "num \<Rightarrow> num \<Rightarrow> num \<Rightarrow> num \<Rightarrow> num \<Rightarrow> num \<Rightarrow> real option" where
  "colorDistance r1 g1 b1 r2 g2 b2 =
     map_option (\<lambda>d. sqrt (real_of_int d)) (colorDistanceSquared r1 g1 b1 r2 g2 b2)"

text \<open>
  The histogram loop samples every fourth pixel: \<^verbatim>\<open>for (i = 0; i < data.length / 4; i += 4)\<close>
  with \<^verbatim>\<open>pixelIndex = i * 4\<close>. A \<^verbatim>\<open>NaN\<close> bin index leaves the histogram unchanged; every
  sample counts in \<^verbatim>\<open>sampledPixels\<close>. The histogram is a \<^verbatim>\<open>Uint32Array\<close>.
\<close>

definition histogramAdd :: "rgb \<Rightarrow> nat list \<Rightarrow> rgb \<Rightarrow> nat list" where
  "histogramAdd dominantColor histogram smp =
     (case (smp, dominantColor) of
        ((r, g, b), (dr, dg, db)) \<Rightarrow>
          (case colorDistance r g b dr dg db of
             None \<Rightarrow> histogram
           | Some distance \<Rightarrow>
               (let binIndex = nat (min \<lfloor>(distance / 442) * 255\<rfloor> 255)
                in histogram[binIndex := u32 (histogram ! binIndex + 1)])))"

definition sampledIndices :: "nat list \<Rightarrow> nat list" where
  "sampledIndices d = filter (\<lambda>i. i mod 4 = 0) [0..<(length d + 3) div 4]"

text \<open>
  Otsu's search over the bins \<open>t\<close>, with its \<^verbatim>\<open>continue\<close> (no background weight yet) and its
  \<^verbatim>\<open>break\<close> (no foreground weight left). The state is \<open>(sumBackground, weightBackground,
  maxVariance, optimalBin)\<close>.
\<close>

fun otsuLoop ::
  "nat list \<Rightarrow> nat list \<Rightarrow> int \<Rightarrow> int \<Rightarrow> int \<times> int \<times> real \<times> nat \<Rightarrow> int \<times> int \<times> real \<times> nat" where
  "otsuLoop [] histogram sampledPixels sumTotal st = st"
| "otsuLoop (t # ts) histogram sampledPixels sumTotal (sumBackground, weightBackground, maxVariance, optimalBin) =
     (let weightBackground = weightBackground + int (histogram ! t)
      in if weightBackground = 0
         then otsuLoop ts histogram sampledPixels sumTotal
                (sumBackground, weightBackground, maxVariance, optimalBin)
         else
           (let weightForeground = sampledPixels - weightBackground
            in if weightForeground = 0
               then (sumBackground, weightBackground, maxVariance, optimalBin)
               else
                 (let sumBackground = sumBackground + int t * int (histogram ! t);
                      meanBackground = real_of_int sumBackground / real_of_int weightBackground;
                      meanForeground =
                        real_of_int (sumTotal - sumBackground) / real_of_int weightForeground;
                      variance = real_of_int weightBackground * real_of_int weightForeground
                                   * (meanBackground - meanForeground) ^ 2
                  in if variance > maxVariance
                     then otsuLoop ts histogram sampledPixels sumTotal
                            (sumBackground, weightBackground, variance, t)
                     else otsuLoop ts histogram sampledPixels sumTotal
                            (sumBackground, weightBackground, maxVariance, optimalBin))))"

definition calculateAutoThreshold :: "ImageData \<Rightarrow> real \<times> rgb" where
  "calculateAutoThreshold img =
     (let dominantColor = detectDominantColor img;
          maxDistance = 442;
          histogramBins = 256;
          samples = map (\<lambda>i. sampleAt (data img) (int i * 4)) (sampledIndices (data img));
          histogram = foldl (histogramAdd dominantColor) (replicate histogramBins 0) samples;
          sampledPixels = int (length samples);
          sumTotal = (\<Sum>i\<leftarrow>[0..<histogramBins]. int i * int (histogram ! i));
          optimalBin = snd (snd (snd
            (otsuLoop [0..<histogramBins] histogram sampledPixels sumTotal (0, 0, 0, 0))));
          threshold = (real optimalBin / real (histogramBins - 1)) * maxDistance;
          clampedThreshold = max 20 (min threshold 150)
      in (clampedThreshold, dominantColor))"

section \<open>Feathering and edge refinement\<close>

text \<open>\<^verbatim>\<open>gaussianFalloff\<close>: a smooth step from 0 at the threshold to 255 one radius further.\<close>

definition gaussianFalloff :: "real \<Rightarrow> real \<Rightarrow> real \<Rightarrow> int" where
  "gaussianFalloff distance threshold featherRadius =
     (if distance \<le> threshold then 0
      else if distance \<ge> threshold + featherRadius then 255
      else (let t = (distance - threshold) / featherRadius;
                smoothT = t * t * (3 - 2 * t)
            in mathRound (smoothT * 255)))"

text \<open>
  Stores into typed arrays: a \<^verbatim>\<open>Uint8Array\<close> keeps an integer modulo 256, a
  \<^verbatim>\<open>Uint8ClampedArray\<close> clamps it to \<open>0 \<dots> 255\<close>.
\<close>

definition toUint8 :: "int \<Rightarrow> nat" where
  "toUint8 v = nat (v mod 256)"

definition clampUint8 :: "int \<Rightarrow> nat" where
  "clampUint8 v = nat (max 0 (min 255 v))"

text \<open>
  The alpha masks of the refinement phase have \<open>width * height\<close> entries, and the loops
  below only read them at indices they have checked to be inside the image. \<open>alphaAt\<close>
  is such a read at column \<open>x\<close> and row \<open>y\<close>.
\<close>

definition alphaAt :: "nat list \<Rightarrow> nat \<Rightarrow> nat \<Rightarrow> nat \<Rightarrow> nat" where
  "alphaAt alphaMask w x y = alphaMask ! (y * w + x)"

text \<open>
  \<^verbatim>\<open>isEdgePixel\<close>: a fully transparent or fully opaque pixel with a 4-neighbour on the
  other side of 128, or any pixel with an alpha strictly between 0 and 255. A neighbour
  outside the image counts as the centre itself.
\<close>

definition isEdgePixel :: "nat list \<Rightarrow> nat \<Rightarrow> nat \<Rightarrow> nat \<Rightarrow> nat \<Rightarrow> bool" where
  "isEdgePixel alphaMask x y w h =
     (let centerAlpha = alphaAt alphaMask w x y;
          neighbors =
            [if y > 0 then alphaAt alphaMask w x (y - 1) else centerAlpha,
             if y + 1 < h then alphaAt alphaMask w x (y + 1) else centerAlpha,
             if x > 0 then alphaAt alphaMask w (x - 1) y else centerAlpha,
             if x + 1 < w then alphaAt alphaMask w (x + 1) y else centerAlpha]
      in if (centerAlpha = 0 \<or> centerAlpha = 255) \<and>
            list_ex (\<lambda>n. (centerAlpha > 128 \<and> n \<le> 128) \<or> (centerAlpha \<le> 128 \<and> n > 128)) neighbors
         then True
         else centerAlpha > 0 \<and> centerAlpha < 255)"

text \<open>
  The nested loops that fill a fresh mask, \<^verbatim>\<open>out[y * width + x] = f(x, y)\<close> for every row
  \<open>y\<close> and column \<open>x\<close> in turn, write each index once and in increasing order: the mask
  is the list of the values row by row.
\<close>

definition perPixel :: "nat \<Rightarrow> nat \<Rightarrow> (nat \<Rightarrow> nat \<Rightarrow> nat) \<Rightarrow> nat list" where
  "perPixel w h f = concat (map (\<lambda>y. map (\<lambda>x. f x y) [0..<w]) [0..<h])"

text \<open>
  \<^verbatim>\<open>smoothEdges\<close>. The kernel is built for \<open>i\<close> and then \<open>j\<close> from 0 to \<open>kernelSize - 1\<close>, and
  read back with a running index \<^verbatim>\<open>ki\<close> over \<open>dy\<close> and then \<open>dx\<close>; the neighbour coordinates are
  clamped to the image.
\<close>

definition smoothKernel :: "int \<Rightarrow> real list" where
  "smoothKernel smoothRadius =
     (let kernelSize = smoothRadius * 2 + 1;
          kernel = concat (map (\<lambda>i. map (\<lambda>j.
                     (let dx = i - smoothRadius;
                          dy = j - smoothRadius;
                          distance = sqrt (real_of_int (dx * dx + dy * dy))
                      in exp (- (distance * distance) / (2 * real_of_int smoothRadius))))
                     [0..kernelSize - 1]) [0..kernelSize - 1]);
          kernelSum = sum_list kernel
      in map (\<lambda>weight. weight / kernelSum) kernel)"

definition hasVariation :: "nat list \<Rightarrow> nat \<Rightarrow> nat \<Rightarrow> nat \<Rightarrow> nat \<Rightarrow> bool" where
  "hasVariation alphaMask w h x y =
     (let centerAlpha = alphaAt alphaMask w x y
      in (x > 0 \<and> alphaAt alphaMask w (x - 1) y \<noteq> centerAlpha) \<or>
         (x + 1 < w \<and> alphaAt alphaMask w (x + 1) y \<noteq> centerAlpha) \<or>
         (y > 0 \<and> alphaAt alphaMask w x (y - 1) \<noteq> centerAlpha) \<or>
         (y + 1 < h \<and> alphaAt alphaMask w x (y + 1) \<noteq> centerAlpha))"

definition clampCoord :: "int \<Rightarrow> nat \<Rightarrow> nat" where
  "clampCoord v n = nat (max 0 (min (int n - 1) v))"

definition smoothEdges :: "nat list \<Rightarrow> nat \<Rightarrow> nat \<Rightarrow> int \<Rightarrow> nat list" where
  "smoothEdges alphaMask w h radius =
     (let smoothRadius = max 1 (min radius 5);
          kernelSize = smoothRadius * 2 + 1;
          kernel = smoothKernel smoothRadius
      in perPixel w h (\<lambda>x y.
           if \<not> hasVariation alphaMask w h x y then alphaAt alphaMask w x y
           else toUint8 (mathRound
             (\<Sum>dy\<leftarrow>[- smoothRadius..smoothRadius]. \<Sum>dx\<leftarrow>[- smoothRadius..smoothRadius].
                real (alphaAt alphaMask w (clampCoord (int x + dx) w) (clampCoord (int y + dy) h))
                  * kernel ! nat ((dy + smoothRadius) * kernelSize + (dx + smoothRadius))))))"

text \<open>
  \<^verbatim>\<open>refineEdges\<close>: erosion (minimum over a disc), dilation (maximum over the same disc) and
  a 3 by 3 box blur of the interior pixels that differ from a 4-neighbour.
\<close>

definition disc :: "nat \<Rightarrow> nat \<Rightarrow> int \<Rightarrow> nat \<Rightarrow> nat \<Rightarrow> (nat \<times> nat) list" where
  "disc w h erodeRadius x y =
     concat (map (\<lambda>dy. concat (map (\<lambda>dx.
       (let nx = int x + dx; ny = int y + dy
        in if dx * dx + dy * dy > erodeRadius * erodeRadius then []
           else if nx < 0 \<or> nx \<ge> int w \<or> ny < 0 \<or> ny \<ge> int h then []
           else [(nat nx, nat ny)]))
       [- erodeRadius..erodeRadius])) [- erodeRadius..erodeRadius])"

definition refineEdges :: "nat list \<Rightarrow> nat \<Rightarrow> nat \<Rightarrow> int \<Rightarrow> nat list" where
  "refineEdges alphaMask w h radius =
     (let erodeRadius = max 1 (min radius 3);
          temp = perPixel w h (\<lambda>x y.
            foldl (\<lambda>minAlpha (nx, ny). min minAlpha (alphaAt alphaMask w nx ny))
              (alphaAt alphaMask w x y) (disc w h erodeRadius x y));
          refined = perPixel w h (\<lambda>x y.
            foldl (\<lambda>maxAlpha (nx, ny). max maxAlpha (alphaAt temp w nx ny))
              (alphaAt temp w x y) (disc w h erodeRadius x y))
      in perPixel w h (\<lambda>x y.
           (let center = alphaAt refined w x y
            in if x > 0 \<and> x + 1 < w \<and> y > 0 \<and> y + 1 < h \<and>
                  (alphaAt refined w (x - 1) y \<noteq> center \<or> alphaAt refined w (x + 1) y \<noteq> center \<or>
                   alphaAt refined w x (y - 1) \<noteq> center \<or> alphaAt refined w x (y + 1) \<noteq> center)
               then toUint8 (mathRound (real
                      (alphaAt refined w (x - 1) (y - 1) + alphaAt refined w x (y - 1)
                       + alphaAt refined w (x + 1) (y - 1)
                       + alphaAt refined w (x - 1) y + center + alphaAt refined w (x + 1) y
                       + alphaAt refined w (x - 1) (y + 1) + alphaAt refined w x (y + 1)
                       + alphaAt refined w (x + 1) (y + 1)) / 9))
               else center)))"

text \<open>
  \<^verbatim>\<open>decontaminateEdges\<close> changes the colour bytes of the image in place, pixel after pixel:
  a later pixel samples neighbours that an earlier step may already have changed. One
  step, for the pixel at column \<open>x\<close> and row \<open>y\<close>:
\<close>

definition foregroundSample ::
  "nat list \<Rightarrow> nat list \<Rightarrow> nat \<Rightarrow> nat \<Rightarrow> int \<Rightarrow> nat \<Rightarrow> nat \<Rightarrow> (num \<times> num \<times> num \<times> nat)" where
  "foregroundSample imageData alphaMask w h edgeRadius x y =
     foldl (\<lambda>(sumR, sumG, sumB, n) (dx, dy).
        (let nx = int x + dx; ny = int y + dy
         in if dx = 0 \<and> dy = 0 then (sumR, sumG, sumB, n)
            else if nx < 0 \<or> nx \<ge> int w \<or> ny < 0 \<or> ny \<ge> int h then (sumR, sumG, sumB, n)
            else if alphaAt alphaMask w (nat nx) (nat ny) = 255 \<and>
                    \<not> isEdgePixel alphaMask (nat nx) (nat ny) w h
            then (let nPixelIdx = shl2 (ny * int w + nx)
                  in (addNum sumR (channel imageData nPixelIdx),
                      addNum sumG (channel imageData (nPixelIdx + 1)),
                      addNum sumB (channel imageData (nPixelIdx + 2)), n + 1))
            else (sumR, sumG, sumB, n)))
       (Some 0, Some 0, Some 0, 0)
       (concat (map (\<lambda>dy. map (\<lambda>dx. (dx, dy)) [- edgeRadius..edgeRadius])
                    [- edgeRadius..edgeRadius]))"

text \<open>
  The colour written back, one channel: the pixel's value \<open>c\<close>, shifted towards the average
  foreground value and away from the background value \<open>bg\<close>, clamped and rounded. A
  \<^verbatim>\<open>NaN\<close> is stored as 0.
\<close>

definition cleanChannel :: "int \<Rightarrow> num \<Rightarrow> nat \<Rightarrow> num \<Rightarrow> real \<Rightarrow> real \<Rightarrow> nat" where
  "cleanChannel c sumC n bg decontamStrength bgSimilarity =
     (case (sumC, bg) of
        (Some s, Some bgc) \<Rightarrow>
          (let avg = real_of_int s / real n;
               clean = real_of_int c + (avg - real_of_int c) * decontamStrength * 0.7
                         - (real_of_int bgc - real_of_int c) * bgSimilarity * 0.3
           in clampUint8 (mathRound (max 0 (min 255 clean))))
      | _ \<Rightarrow> 0)"

definition decontaminatePixel ::
  "nat list \<Rightarrow> nat \<Rightarrow> nat \<Rightarrow> rgb \<Rightarrow> int \<Rightarrow> nat \<Rightarrow> nat \<Rightarrow> nat list \<Rightarrow> nat list" where
  "decontaminatePixel alphaMask w h bgColor edgeRadius x y imageData =
     (let idx = y * w + x;
          alpha = alphaMask ! idx;
          isEdge = isEdgePixel alphaMask x y w h
      in if alpha = 0 then imageData
         else if \<not> isEdge \<and> alpha = 255 then imageData
         else
           (let pixelIdx = shl2 (int idx);
                r = channel imageData pixelIdx;
                g = channel imageData (pixelIdx + 1);
                b = channel imageData (pixelIdx + 2)
            in case (r, g, b, colorDistance r g b (fst bgColor) (fst (snd bgColor)) (snd (snd bgColor))) of
                 (Some r', Some g', Some b', Some distance) \<Rightarrow>
                   (let bgSimilarity = 1 - min 1 (distance / 200);
                        bgInfluence = 1 - real alpha / 255;
                        decontamStrength =
                          min 1 ((bgInfluence + bgSimilarity * 0.5) * (if isEdge then 1.2 else 0.8))
                    in if decontamStrength > 0.05
                       then (case foregroundSample imageData alphaMask w h edgeRadius x y of
                               (sumR, sumG, sumB, n) \<Rightarrow>
                                 if n > 0
                                 then
                                   (let d1 = wr imageData pixelIdx
                                          (cleanChannel r' sumR n (fst bgColor) decontamStrength bgSimilarity);
                                        d2 = wr d1 (pixelIdx + 1)
                                          (cleanChannel g' sumG n (fst (snd bgColor)) decontamStrength bgSimilarity)
                                    in wr d2 (pixelIdx + 2)
                                         (cleanChannel b' sumB n (snd (snd bgColor)) decontamStrength bgSimilarity))
                                 else imageData)
                       else imageData)
               | _ \<Rightarrow> imageData))"

definition decontaminateEdges ::
  "nat list \<Rightarrow> nat list \<Rightarrow> nat \<Rightarrow> nat \<Rightarrow> rgb \<Rightarrow> int \<Rightarrow> nat list" where
  "decontaminateEdges imageData alphaMask w h bgColor radius =
     (let edgeRadius = max 1 (min radius 10)
      in fold (\<lambda>y d. fold (\<lambda>x d. decontaminatePixel alphaMask w h bgColor edgeRadius x y d) [0..<w] d)
           [0..<h] imageData)"

section \<open>The classifier and the processing job\<close>

datatype ProcessingMode = Auto | Manual | ColorPicker

datatype EdgeMode = Hard | Feathered | Decontaminate | Smooth | Refine

text \<open>\<^verbatim>\<open>SelectedColor\<close> without its \<^verbatim>\<open>id\<close>, which the worker never reads.\<close>

record SelectedColor =
  color_r :: int
  color_g :: int
  color_b :: int
  color_tolerance :: real

text \<open>
  \<^verbatim>\<open>ProcessingSettings\<close> as the worker reads it. Of \<^verbatim>\<open>settings.magicSelection\<close> only the
  list \<^verbatim>\<open>appliedRegions\<close> is used. The feather radius is the integer of its slider.
\<close>

record ProcessingSettings =
  mode :: ProcessingMode
  threshold :: real
  autoThreshold :: real
  selectedColors :: "SelectedColor list"
  edgeMode :: EdgeMode
  featherRadius :: int
  appliedRegions :: "MagicRegion list"

definition effectiveThreshold :: "ProcessingSettings \<Rightarrow> real" where
  "effectiveThreshold settings =
     (if mode settings = Auto then autoThreshold settings else threshold settings)"

definition thresholdSquared :: "ProcessingSettings \<Rightarrow> real" where
  "thresholdSquared settings = effectiveThreshold settings * effectiveThreshold settings"

definition useAdvancedEdge :: "ProcessingSettings \<Rightarrow> bool" where
  "useAdvancedEdge settings =
     (edgeMode settings = Decontaminate \<or> edgeMode settings = Smooth \<or> edgeMode settings = Refine)"

text \<open>
  What a matching pixel gets, the same three branches in colour-picker and in threshold
  mode: with an advanced edge mode its distance ratio goes into the alpha mask; in hard
  mode its alpha byte becomes 0; otherwise (feathered) its alpha byte is the falloff.
  The state is the image bytes and the alpha mask (\<^verbatim>\<open>null\<close> without an advanced mode).
\<close>

definition writeMatch ::
  "ProcessingSettings \<Rightarrow> int \<Rightarrow> real \<Rightarrow> nat \<Rightarrow> int \<Rightarrow> nat list \<times> nat list option
     \<Rightarrow> nat list \<times> nat list option" where
  "writeMatch settings distSq tol i pixelIndex st =
     (case st of
        (d, alphaMask) \<Rightarrow>
          (case (useAdvancedEdge settings, alphaMask) of
             (True, Some am) \<Rightarrow>
               (let distance = sqrt (real_of_int distSq);
                    ratio = distance / tol
                in (d, Some (wr am (int i) (toUint8 (mathRound (ratio * 255))))))
           | _ \<Rightarrow>
               if edgeMode settings = Hard then (wr d (pixelIndex + 3) (clampUint8 0), alphaMask)
               else (let distance = sqrt (real_of_int distSq)
                     in (wr d (pixelIndex + 3)
                           (clampUint8 (gaussianFalloff distance (tol * 0.7)
                              (real_of_int (featherRadius settings)))),
                         alphaMask))))"

text \<open>
  The colour-picker loop over the selected colours: the first colour whose squared
  distance is strictly below its squared tolerance decides, and the loop breaks.
\<close>

fun pickerLoop ::
  "ProcessingSettings \<Rightarrow> rgb \<Rightarrow> nat \<Rightarrow> int \<Rightarrow> SelectedColor list
     \<Rightarrow> nat list \<times> nat list option \<Rightarrow> nat list \<times> nat list option" where
  "pickerLoop settings px i pixelIndex [] st = st"
| "pickerLoop settings px i pixelIndex (sel # rest) st =
     (case colorDistanceSquared (fst px) (fst (snd px)) (snd (snd px))
             (Some (color_r sel)) (Some (color_g sel)) (Some (color_b sel)) of
        Some distSq \<Rightarrow>
          if real_of_int distSq < color_tolerance sel * color_tolerance sel
          then writeMatch settings distSq (color_tolerance sel) i pixelIndex st
          else pickerLoop settings px i pixelIndex rest st
      | None \<Rightarrow> pickerLoop settings px i pixelIndex rest st)"

text \<open>The body of the pixel loop, for pixel \<open>i\<close>.\<close>

definition classifyPixel ::
  "ProcessingSettings \<Rightarrow> rgb \<Rightarrow> nat \<Rightarrow> nat list \<times> nat list option
     \<Rightarrow> nat list \<times> nat list option" where
  "classifyPixel settings dominantColor i st =
     (let pixelIndex = shl2 (int i);
          px = sampleAt (fst st) pixelIndex
      in if mode settings = ColorPicker
         then pickerLoop settings px i pixelIndex (selectedColors settings) st
         else (case colorDistanceSquared (fst px) (fst (snd px)) (snd (snd px))
                      (fst dominantColor) (fst (snd dominantColor)) (snd (snd dominantColor)) of
                 Some distSq \<Rightarrow>
                   if real_of_int distSq < thresholdSquared settings
                   then writeMatch settings distSq (effectiveThreshold settings) i pixelIndex st
                   else st
               | None \<Rightarrow> st))"

definition chunkSize :: nat where
  "chunkSize = 250000"

text \<open>
  The worker's flag \<^verbatim>\<open>isCancelled\<close>. The handler of a \<^verbatim>\<open>process\<close> message clears it and
  runs the job up to its first \<^verbatim>\<open>await\<close>; the job then yields once after every chunk,
  and a \<^verbatim>\<open>cancel\<close> message can only be handled during such a yield. \<open>cancelAfter = Some c\<close>
  says that the \<^verbatim>\<open>cancel\<close> message is handled during yield number \<open>c\<close> (counted from 0),
  \<open>None\<close> that none arrives. The flag read after \<open>yields\<close> yields:
\<close>

definition isCancelled :: "nat option \<Rightarrow> nat \<Rightarrow> bool" where
  "isCancelled cancelAfter yields = (case cancelAfter of None \<Rightarrow> False | Some c \<Rightarrow> c < yields)"

datatype Response =
    Progress int
  | Complete ImageData
  | AutoThresholdResult real rgb
  | MagicSelectResult MagicRegion
  | Cancelled
  | Error string

text \<open>
  Phase 1, the chunk loop. It returns the responses posted so far and, unless the job
  was cancelled, the state after the last chunk with the number of yields made.
\<close>

function phase1 ::
  "nat option \<Rightarrow> ProcessingSettings \<Rightarrow> rgb \<Rightarrow> nat \<Rightarrow> nat \<Rightarrow> nat \<Rightarrow> int
     \<Rightarrow> nat list \<times> nat list option \<Rightarrow> Response list
     \<Rightarrow> Response list \<times> ((nat list \<times> nat list option) \<times> nat) option" where
  "phase1 cancelAfter settings dominantColor totalPixels chunkStart yields lastProgressUpdate st out =
     (if chunkStart < totalPixels then
        (if isCancelled cancelAfter yields then (out @ [Cancelled], None)
         else
           (let chunkEnd = min (chunkStart + chunkSize) totalPixels;
                st = fold (classifyPixel settings dominantColor) [chunkStart..<chunkEnd] st;
                processedPixels = chunkEnd;
                progress =
                  (if useAdvancedEdge settings
                   then mathRound ((real processedPixels / real totalPixels) * 50)
                   else mathRound ((real processedPixels / real totalPixels) * 100))
            in if progress \<ge> lastProgressUpdate + 10
               then phase1 cancelAfter settings dominantColor totalPixels (chunkStart + chunkSize)
                      (yields + 1) progress st (out @ [Progress progress])
               else phase1 cancelAfter settings dominantColor totalPixels (chunkStart + chunkSize)
                      (yields + 1) lastProgressUpdate st out))
      else (out, Some (st, yields)))"
  by pat_completeness auto
termination
  by (relation "measure (\<lambda>(cancelAfter, settings, dominantColor, totalPixels, chunkStart, rest).
        totalPixels - chunkStart)")
     (auto simp: chunkSize_def)

text \<open>\<^verbatim>\<open>data[(i << 2) + 3] = processedMask[i]\<close> for every pixel \<open>i\<close>.\<close>

definition applyMask :: "nat list \<Rightarrow> nat list \<Rightarrow> nat \<Rightarrow> nat list" where
  "applyMask d processedMask totalPixels =
     fold (\<lambda>i d. wr d (shl2 (int i) + 3) (clampUint8 (int (processedMask ! i)))) [0..<totalPixels] d"

text \<open>
  The applied magic regions, in order: the mask of a region is decoded at the size of its
  bounds, and every set mask pixel stamps alpha 255 (keep) or 0 (remove) at its absolute
  position.
\<close>

definition applyRegion :: "nat \<Rightarrow> nat list \<Rightarrow> MagicRegion \<Rightarrow> nat list" where
  "applyRegion w d region =
     (let bnds = bounds region;
          maskWidth = bounds_width bnds;
          maskHeight = bounds_height bnds;
          isKeep = (regionMode region = Keep);
          alphaValue = (if isKeep then 255 else 0);
          msk = decodeMaskFromRLE (maskRLE region) (maskWidth * maskHeight)
      in fold (\<lambda>localY d.
           (let globalY = bounds_y bnds + int localY;
                rowOffset = globalY * int w;
                maskRowOffset = localY * maskWidth
            in fold (\<lambda>localX d.
                 if msk ! (maskRowOffset + localX) \<noteq> 0
                 then wr d (shl2 (rowOffset + bounds_x bnds + int localX) + 3) (clampUint8 alphaValue)
                 else d)
               [0..<maskWidth] d))
         [0..<maskHeight] d)"

definition applyRegions :: "nat \<Rightarrow> MagicRegion list \<Rightarrow> nat list \<Rightarrow> nat list" where
  "applyRegions w regions d = fold (\<lambda>region d. applyRegion w d region) regions d"

text \<open>
  \<^verbatim>\<open>processImage\<close>: the responses the job posts. After phase 1 an advanced edge mode
  checks the flag again (twice, with no yield in between), refines the mask and writes
  it into the alpha channel; then the magic regions are stamped and the buffer is
  delivered.
\<close>

definition processImage :: "nat option \<Rightarrow> ImageData \<Rightarrow> ProcessingSettings \<Rightarrow> Response list" where
  "processImage cancelAfter imageData settings =
     (let w = width imageData;
          h = height imageData;
          totalPixels = w * h;
          dominantColor =
            (if mode settings = Auto \<or> mode settings = Manual then detectDominantColor imageData
             else (Some 255, Some 255, Some 255));
          alphaMask = (if useAdvancedEdge settings then Some (replicate totalPixels 255) else None)
      in case phase1 cancelAfter settings dominantColor totalPixels 0 0 0 (data imageData, alphaMask) [] of
           (out, None) \<Rightarrow> out
         | (out, Some ((d, alphaMask), yields)) \<Rightarrow>
             (case (useAdvancedEdge settings, alphaMask) of
                (True, Some am) \<Rightarrow>
                  if isCancelled cancelAfter yields then out @ [Cancelled]
                  else
                    (let out = out @ [Progress 60];
                         processedMask =
                           (case edgeMode settings of
                              Smooth \<Rightarrow> smoothEdges am w h (featherRadius settings)
                            | Refine \<Rightarrow> refineEdges am w h (featherRadius settings)
                            | Decontaminate \<Rightarrow>
                                smoothEdges am w h (max 1 (featherRadius settings div 2))
                            | _ \<Rightarrow> am)
                     in if isCancelled cancelAfter yields then out @ [Cancelled]
                        else
                          (let out = out @ [Progress 80];
                               d = applyMask d processedMask totalPixels;
                               d = (if edgeMode settings = Decontaminate
                                    then (let bgColor =
                                                (case (mode settings, selectedColors settings) of
                                                   (ColorPicker, c # cs) \<Rightarrow>
                                                     (Some (color_r c), Some (color_g c), Some (color_b c))
                                                 | _ \<Rightarrow> dominantColor)
                                          in decontaminateEdges d processedMask w h bgColor
                                               (featherRadius settings))
                                    else d);
                               out = out @ [Progress 95]
                           in out @ [Complete (imageData\<lparr>data :=
                                       applyRegions w (appliedRegions settings) d\<rparr>)]))
              | _ \<Rightarrow>
                  out @ [Complete (imageData\<lparr>data := applyRegions w (appliedRegions settings) d\<rparr>)]))"

section \<open>The worker's message handler\<close>

datatype WorkerMessage =
    Process ImageData ProcessingSettings
  | CalculateAutoThreshold ImageData
  | MagicSelect ImageData int int real
  | Cancel
  | Unknown string

text \<open>
  \<^verbatim>\<open>self.onmessage\<close>: the responses to one message. A \<^verbatim>\<open>cancel\<close> message only sets the flag
  and posts nothing; its effect on a running job is the \<open>cancelAfter\<close> of that job. A
  message of another type is answered with an error that names the type. \<open>None\<close> means
  that the handler does not return. None of the operations modelled here throws, so the
  \<^verbatim>\<open>catch\<close> branch posts nothing.
\<close>

definition onmessage :: "nat option \<Rightarrow> WorkerMessage \<Rightarrow> Response list option" where
  "onmessage cancelAfter message =
     (case message of
        Process imageData settings \<Rightarrow> Some (processImage cancelAfter imageData settings)
      | CalculateAutoThreshold imageData \<Rightarrow>
          (case calculateAutoThreshold imageData of
             (thr, dominantColor) \<Rightarrow> Some [AutoThresholdResult thr dominantColor])
      | MagicSelect imageData x y tol \<Rightarrow>
          (case magicSelect imageData x y tol of
             None \<Rightarrow> None
           | Some magicRegion \<Rightarrow> Some [MagicSelectResult magicRegion])
      | Cancel \<Rightarrow> Some []
      | Unknown ty \<Rightarrow> Some [Error (''Unknown message type: '' @ ty)])"

section \<open>Small inputs for the scenarios\<close>

text \<open>
  A buffer of one pixel with colour \<open>(250, 250, 250)\<close> and alpha \<open>a\<close>, and manual-mode settings
  with hard edges, no picked colours and no applied regions. For a buffer this small
  \<^verbatim>\<open>detectDominantColor\<close> samples nothing and returns white.
\<close>

definition onePixel :: "nat \<Rightarrow> ImageData" where
  "onePixel a = \<lparr>width = 1, height = 1, data = [250, 250, 250, a]\<rparr>"

definition manualHard :: "real \<Rightarrow> ProcessingSettings" where
  "manualHard t =
     \<lparr>mode = Manual, threshold = t, autoThreshold = 0, selectedColors = [],
      edgeMode = Hard, featherRadius = 1, appliedRegions = []\<rparr>"

section \<open>Notions used to state and prove the properties\<close>

text \<open>
  What a flat run list means: index \<open>k\<close> lies in one of its \<open>(start, length)\<close> runs.
  This is a specification device for the proofs below, not a function of the source.
\<close>

fun covered :: "nat list \<Rightarrow> nat \<Rightarrow> bool" where
  "covered (s # l # rest) k = ((s \<le> k \<and> k < s + l) \<or> covered rest k)"
| "covered [s] k = False"
| "covered [] k = False"

text \<open>The number of entries of a visited array that are still 0.\<close>

definition zeros :: "nat list \<Rightarrow> nat" where
  "zeros xs = length (filter (\<lambda>v. v = 0) xs)"

text \<open>The flattened index of a coordinate pair in an image of width \<open>w\<close>.\<close>

definition lin :: "int \<Rightarrow> int \<times> int \<Rightarrow> int" where
  "lin w p = snd p * w + fst p"

text \<open>The weight of a stack entry in the termination measure of the fill loop: an entry inside the image can push its four neighbours, an entry outside pushes nothing.\<close>

definition weight :: "nat \<Rightarrow> int \<Rightarrow> nat" where
  "weight n L = (if 0 \<le> L \<and> L < int n then 5 else 1)"

text \<open>The termination measure of the fill loop.\<close>

definition fillMeasure :: "ImageData \<Rightarrow> FillState \<Rightarrow> nat" where
  "fillMeasure img s =
     5 * zeros (visited s)
     + sum_list (map (\<lambda>p. weight (width img * height img) (lin (int (width img)) p)) (stack s))"

text \<open>The visited array has one entry per pixel, and the flattened index of every stack entry is in the range where \<^verbatim>\<open><< 2\<close> does not wrap into the buffer.\<close>

definition noWrap :: "ImageData \<Rightarrow> FillState \<Rightarrow> bool" where
  "noWrap img s =
     (length (visited s) = width img * height img \<and>
      (\<forall>p\<in>set (stack s). - (2 ^ 29) \<le> lin (int (width img)) p \<and> lin (int (width img)) p < 2 ^ 30))"

text \<open>The colour of the pixel at absolute coordinates \<open>(x, y)\<close>: the first three of its four bytes, in row-major order.\<close>

definition pixelAt :: "ImageData \<Rightarrow> int \<Rightarrow> int \<Rightarrow> num \<times> num \<times> num" where
  "pixelAt img x y =
     (let i = 4 * (y * int (width img) + x)
      in (channel (data img) i, channel (data img) (i + 1), channel (data img) (i + 2)))"

text \<open>The squared weighted distance of two colours is defined and at most \<open>c\<close>.\<close>

definition withinTolerance :: "num \<times> num \<times> num \<Rightarrow> num \<times> num \<times> num \<Rightarrow> real \<Rightarrow> bool" where
  "withinTolerance p q c =
     numLe (colorDistanceSquared (fst p) (fst (snd p)) (snd (snd p))
              (fst q) (fst (snd q)) (snd (snd q))) c"

text \<open>The flattened indices of the selected pixels.\<close>

definition selSet :: "FillState \<Rightarrow> nat set" where
  "selSet s = {k. k < length (selected s) \<and> selected s ! k \<noteq> 0}"

text \<open>Column and row of a flattened index.\<close>

definition col :: "ImageData \<Rightarrow> nat \<Rightarrow> int" where
  "col img k = int k mod int (width img)"

definition row :: "ImageData \<Rightarrow> nat \<Rightarrow> int" where
  "row img k = int k div int (width img)"

text \<open>The invariant of the fill loop for a seed \<open>(sx, sy)\<close> inside the image: the stack holds coordinates inside the image; every selected pixel is within tolerance of the seed colour and inside the running bounds; the bounds are inside the image; and either the loop has not started, or each of the four bounds is attained by a selected pixel.\<close>

definition fillInv :: "ImageData \<Rightarrow> num \<times> num \<times> num \<Rightarrow> real \<Rightarrow> int \<Rightarrow> int \<Rightarrow> FillState \<Rightarrow> bool" where
  "fillInv img seed c sx sy s =
     (length (selected s) = width img * height img \<and>
      (\<forall>p\<in>set (stack s). 0 \<le> fst p \<and> fst p < int (width img) \<and> 0 \<le> snd p \<and> snd p < int (height img)) \<and>
      (\<forall>k\<in>selSet s. withinTolerance (pixelAt img (col img k) (row img k)) seed c \<and>
          minX s \<le> col img k \<and> col img k \<le> maxX s \<and> minY s \<le> row img k \<and> row img k \<le> maxY s) \<and>
      0 \<le> minX s \<and> maxX s < int (width img) \<and> 0 \<le> minY s \<and> maxY s < int (height img) \<and>
      ((stack s = [(sx, sy)] \<and> minX s = sx \<and> maxX s = sx \<and> minY s = sy \<and> maxY s = sy \<and> selSet s = {})
       \<or> ((\<exists>k\<in>selSet s. col img k = minX s) \<and> (\<exists>k\<in>selSet s. col img k = maxX s) \<and>
           (\<exists>k\<in>selSet s. row img k = minY s) \<and> (\<exists>k\<in>selSet s. row img k = maxY s))))"

text \<open>
  The mask of a region, decoded at the size of its bounding box
  (\<^verbatim>\<open>bounds.width * bounds.height\<close>), as the pipeline decodes it.
\<close>

definition regionMask :: "MagicRegion \<Rightarrow> nat list" where
  "regionMask region =
     decodeMaskFromRLE (maskRLE region)
       (bounds_width (bounds region) * bounds_height (bounds region))"

text \<open>
  \<open>alphaWrites V d0 d\<close>: the buffer \<open>d\<close> differs from \<open>d0\<close> at alpha bytes only (the bytes at
  indices \<open>3, 7, 11, \<dots>\<close>), and every changed byte holds a value of \<open>V\<close>.
\<close>

definition alphaWrites :: "nat set \<Rightarrow> nat list \<Rightarrow> nat list \<Rightarrow> bool" where
  "alphaWrites V d0 d =
     (length d = length d0 \<and>
      (\<forall>j<length d0. d ! j = d0 ! j \<or> (j mod 4 = 3 \<and> d ! j \<in> V)))"

text \<open>
  The test of the pixel loop in auto and manual mode, for pixel \<open>i\<close> of the submitted
  image: its squared distance to the dominant colour is strictly below the squared
  threshold. The count of such pixels is the number classified as background.
\<close>

definition isBackground :: "ImageData \<Rightarrow> ProcessingSettings \<Rightarrow> nat \<Rightarrow> bool" where
  "isBackground img settings i =
     (let px = sampleAt (data img) (shl2 (int i));
          dominantColor = detectDominantColor img
      in numLt (colorDistanceSquared (fst px) (fst (snd px)) (snd (snd px))
                  (fst dominantColor) (fst (snd dominantColor)) (snd (snd dominantColor)))
           (thresholdSquared settings))"

definition backgroundCount :: "ImageData \<Rightarrow> ProcessingSettings \<Rightarrow> nat" where
  "backgroundCount img settings =
     length (filter (isBackground img settings) [0..<width img * height img])"

section \<open>Properties of the RLE codec\<close>

lemma length_fillRun [simp]: "length (fillRun m s e) = length m"
  unfolding fillRun_def by (induction e) (auto)

lemma nth_fillRun:
  "k < length m \<Longrightarrow> fillRun m s e ! k = (if s \<le> k \<and> k < e then 1 else m ! k)"
  unfolding fillRun_def
proof (induction e)
  case 0
  then show ?case by simp
next
  case (Suc e)
  show ?case
  proof (cases "s \<le> e")
    case True
    then show ?thesis using Suc length_fillRun [of m s e, unfolded fillRun_def]
      by (auto simp: nth_list_update less_Suc_eq)
  next
    case False
    then show ?thesis using Suc by auto
  qed
qed

lemma length_decodeLoop [simp]: "length (decodeLoop rle n m) = length m"
  by (induction rle n m rule: decodeLoop.induct) auto

lemma nth_decodeLoop:
  "k < length m \<Longrightarrow>
   decodeLoop rle n m ! k = (if covered rle k \<and> k < n then 1 else m ! k)"
  by (induction rle n m rule: decodeLoop.induct) (auto simp: nth_fillRun)

lemma length_decodeMaskFromRLE [simp]: "length (decodeMaskFromRLE rle n) = n"
  by (simp add: decodeMaskFromRLE_def)

lemma nth_decodeMaskFromRLE:
  "k < n \<Longrightarrow> decodeMaskFromRLE rle n ! k = (if covered rle k then 1 else 0)"
  by (simp add: decodeMaskFromRLE_def nth_decodeLoop)

lemma covered_append_run:
  "even (length runs) \<Longrightarrow>
   covered (runs @ [s, l]) k = (covered runs k \<or> (s \<le> k \<and> k < s + l))"
  by (induction runs k rule: covered.induct) auto

lemma even_length_encodeLoop:
  "even (length runs) \<Longrightarrow> even (length (encodeLoop ms i inRun rs runs))"
  by (induction ms i inRun rs runs rule: encodeLoop.induct) (auto simp: Let_def)

lemma covered_encodeLoop:
  "even (length runs) \<Longrightarrow> (inRun \<longrightarrow> rs \<le> i) \<Longrightarrow>
   covered (encodeLoop ms i inRun rs runs) k =
     (covered runs k \<or> (i \<le> k \<and> k < i + length ms \<and> ms ! (k - i) > 0)
        \<or> (inRun \<and> rs \<le> k \<and> k < i))"
proof (induction ms arbitrary: i inRun rs runs)
  case Nil
  then show ?case by (auto simp: covered_append_run)
next
  case (Cons m ms)
  have nth: "(i \<le> k \<and> k < i + length (m # ms) \<and> (m # ms) ! (k - i) > 0) =
             ((k = i \<and> m > 0) \<or> (i + 1 \<le> k \<and> k < (i + 1) + length ms \<and> ms ! (k - (i + 1)) > 0))"
    by (auto simp: nth_Cons')
  consider (start) "m > 0" "\<not> inRun" | (stop) "m = 0" "inRun"
    | (on) "m > 0" "inRun" | (off) "m = 0" "\<not> inRun"
    by auto
  then show ?case
  proof cases
    case start
    have "covered (encodeLoop ms (i + 1) True i runs) k =
       (covered runs k \<or> (i + 1 \<le> k \<and> k < (i + 1) + length ms \<and> ms ! (k - (i + 1)) > 0)
          \<or> (True \<and> i \<le> k \<and> k < i + 1))"
      by (rule Cons.IH) (use Cons.prems in simp_all)
    then show ?thesis unfolding nth using start by auto
  next
    case stop
    have "covered (encodeLoop ms (i + 1) False rs (runs @ [rs, i - rs])) k =
       (covered (runs @ [rs, i - rs]) k
          \<or> (i + 1 \<le> k \<and> k < (i + 1) + length ms \<and> ms ! (k - (i + 1)) > 0)
          \<or> (False \<and> rs \<le> k \<and> k < i + 1))"
      by (rule Cons.IH) (use Cons.prems in simp_all)
    then show ?thesis unfolding nth using stop Cons.prems
      by (auto simp: covered_append_run)
  next
    case on
    have "covered (encodeLoop ms (i + 1) True rs runs) k =
       (covered runs k \<or> (i + 1 \<le> k \<and> k < (i + 1) + length ms \<and> ms ! (k - (i + 1)) > 0)
          \<or> (True \<and> rs \<le> k \<and> k < i + 1))"
      by (rule Cons.IH) (use Cons.prems on in simp_all)
    then show ?thesis unfolding nth using on Cons.prems by auto
  next
    case off
    have "covered (encodeLoop ms (i + 1) False rs runs) k =
       (covered runs k \<or> (i + 1 \<le> k \<and> k < (i + 1) + length ms \<and> ms ! (k - (i + 1)) > 0)
          \<or> (False \<and> rs \<le> k \<and> k < i + 1))"
      by (rule Cons.IH) (use Cons.prems in simp_all)
    then show ?thesis unfolding nth using off by auto
  qed
qed

lemma encodeLoop_bound:
  "\<forall>v\<in>set runs. v \<le> i + length ms \<Longrightarrow> rs \<le> i \<Longrightarrow>
   \<forall>v\<in>set (encodeLoop ms i inRun rs runs). v \<le> i + length ms"
  by (induction ms i inRun rs runs rule: encodeLoop.induct) (auto simp: Let_def)

lemma encodeMaskToRLE_small:
  assumes "length m < 2 ^ 32"
  shows "encodeMaskToRLE m = encodeLoop m 0 False 0 []"
proof -
  have "\<forall>v\<in>set (encodeLoop m 0 False 0 []). v \<le> 0 + length m"
    by (rule encodeLoop_bound) auto
  then have "\<forall>v\<in>set (encodeLoop m 0 False 0 []). u32 v = v"
    using assms by (auto simp: u32_def)
  then show ?thesis unfolding encodeMaskToRLE_def by (simp add: map_idI)
qed

lemma covered_encodeMaskToRLE:
  "length m < 2 ^ 32 \<Longrightarrow> covered (encodeMaskToRLE m) k = (k < length m \<and> m ! k > 0)"
  by (simp add: encodeMaskToRLE_small covered_encodeLoop)

lemma decode_encode:
  "length m < 2 ^ 32 \<Longrightarrow>
   decodeMaskFromRLE (encodeMaskToRLE m) (length m) = map (\<lambda>v. if v > 0 then 1 else 0) m"
  by (rule nth_equalityI) (simp_all add: nth_decodeMaskFromRLE covered_encodeMaskToRLE)

text \<open>
  Claim C2. A binary mask (every entry 0 or 1) is reproduced exactly by decoding its
  encoding at the mask's own length. The mask is short enough for its indices to fit the
  32-bit entries of the encoding.
\<close>

theorem rle_round_trip:
  assumes "\<forall>v\<in>set M. v = 0 \<or> v = 1" and "length M < 2 ^ 32"
  shows "decodeMaskFromRLE (encodeMaskToRLE M) (length M) = M"
proof -
  have "map (\<lambda>v. if v > 0 then 1 else 0) M = M"
    using assms(1) by (intro map_idI) auto
  then show ?thesis using decode_encode [OF assms(2)] by simp
qed

theorem rle_round_trip_witness:
  "length [0, 1, 1, 0, 1 :: nat] < 2 ^ 32 \<and>
   decodeMaskFromRLE (encodeMaskToRLE [0, 1, 1, 0, 1]) (length [0, 1, 1, 0, 1 :: nat])
     = [0, 1, 1, 0, 1]"
  using rle_round_trip [of "[0, 1, 1, 0, 1]"] by simp

lemma length_orMasks [simp]: "length (orMasks m1 m2 n) = length m1"
  unfolding orMasks_def by (induction n) auto

lemma nth_orMasks:
  "k < length m1 \<Longrightarrow>
   orMasks m1 m2 n ! k = (if k < n then or (m1 ! k) (m2 ! k) else m1 ! k)"
  unfolding orMasks_def
proof (induction n)
  case 0
  then show ?case by simp
next
  case (Suc n)
  then show ?case
    using length_orMasks [of m1 m2 n, unfolded orMasks_def]
    by (auto simp: nth_list_update less_Suc_eq)
qed

lemma orMasks_commute:
  assumes "length m1 = n" "length m2 = n"
  shows "orMasks m1 m2 n = orMasks m2 m1 n"
  using assms by (intro nth_equalityI) (simp_all add: nth_orMasks or.commute)

lemma orMasks_same:
  assumes "length m = n"
  shows "orMasks m m n = m"
  using assms by (intro nth_equalityI) (simp_all add: nth_orMasks)

lemma mergeRLEMasks_commute: "mergeRLEMasks a b n = mergeRLEMasks b a n"
  unfolding mergeRLEMasks_def Let_def
  by (subst orMasks_commute [of _ n]) simp_all

lemma encodeLoop_map_positive:
  "encodeLoop (map (\<lambda>v. if v > 0 then 1 else 0) ms) i inRun rs runs =
   encodeLoop ms i inRun rs runs"
  by (induction ms arbitrary: i inRun rs runs) (simp_all add: Let_def)

lemma mergeRLEMasks_encoded:
  assumes "length m < 2 ^ 32"
  shows "mergeRLEMasks (encodeMaskToRLE m) (encodeMaskToRLE m) (length m) = encodeMaskToRLE m"
proof -
  let ?b = "map (\<lambda>v. if v > 0 then 1 else (0::nat)) m"
  have "mergeRLEMasks (encodeMaskToRLE m) (encodeMaskToRLE m) (length m) = encodeMaskToRLE ?b"
    unfolding mergeRLEMasks_def Let_def decode_encode [OF assms]
    by (subst orMasks_same) simp_all
  also have "\<dots> = encodeMaskToRLE m"
    unfolding encodeMaskToRLE_def by (simp only: encodeLoop_map_positive)
  finally show ?thesis .
qed

text \<open>
  Claim C8, as the code has it. Merging is commutative for all run lists and sizes. Merging
  a run list with itself gives it back when the list is the encoding of a mask of exactly
  the given size; the result of a merge is always such an encoding.
\<close>

theorem mergeRLEMasks_commutes_and_idempotent_on_encodings:
  "mergeRLEMasks a b maskSize = mergeRLEMasks b a maskSize \<and>
   (length M < 2 ^ 32 \<longrightarrow>
      mergeRLEMasks (encodeMaskToRLE M) (encodeMaskToRLE M) (length M) = encodeMaskToRLE M)"
  using mergeRLEMasks_commute mergeRLEMasks_encoded by blast

text \<open>
  Claim C8 as stated fails: the run \<open>(0, 2)\<close> merged with itself at size 1 is clipped to
  \<open>(0, 1)\<close>.
\<close>

theorem mergeRLEMasks_not_idempotent:
  "mergeRLEMasks [0, 2] [0, 2] 1 \<noteq> [0, 2]"
  by (simp add: mergeRLEMasks_def decodeMaskFromRLE_def fillRun_def orMasks_def
      encodeMaskToRLE_def u32_def)

theorem mergeRLEMasks_witness:
  "mergeRLEMasks [0, 2] [1, 2] 3 = mergeRLEMasks [1, 2] [0, 2] 3 \<and>
   length [1, 1, 0 :: nat] < 2 ^ 32 \<and> encodeMaskToRLE [1, 1, 0] = [0, 2] \<and>
   mergeRLEMasks [0, 2] [0, 2] 3 = [0, 2]"
proof -
  note t = mergeRLEMasks_commutes_and_idempotent_on_encodings [of "[0, 2]" "[1, 2]" 3 "[1, 1, 0]"]
  have l: "length [1, 1, 0 :: nat] < 2 ^ 32" by simp
  have e: "encodeMaskToRLE [1, 1, 0] = [0, 2]" by (simp add: encodeMaskToRLE_def u32_def)
  have n: "length [1, 1, 0 :: nat] = 3" by simp
  from t have c: "mergeRLEMasks [0, 2] [1, 2] 3 = mergeRLEMasks [1, 2] [0, 2] 3"
    by (rule conjunct1)
  from t l have "mergeRLEMasks (encodeMaskToRLE [1, 1, 0]) (encodeMaskToRLE [1, 1, 0])
      (length [1, 1, 0 :: nat]) = encodeMaskToRLE [1, 1, 0]" by blast
  then have i: "mergeRLEMasks [0, 2] [0, 2] 3 = [0, 2]" unfolding e n .
  from c l e i show ?thesis by blast
qed

section \<open>Properties of the flood fill\<close>

lemma toInt32_id: "- (2 ^ 31) \<le> v \<Longrightarrow> v < 2 ^ 31 \<Longrightarrow> toInt32 v = v"
  unfolding toInt32_def by (simp add: mod_pos_pos_trivial)

lemma toInt32_high: "2 ^ 31 \<le> v \<Longrightarrow> v < 2 ^ 32 \<Longrightarrow> toInt32 v = v - 2 ^ 32"
proof -
  assume a: "2 ^ 31 \<le> v" "v < 2 ^ 32"
  have "(v + 2 ^ 31) mod 2 ^ 32 = (v + 2 ^ 31 - 2 ^ 32) mod 2 ^ 32"
    by (metis mod_diff_right_eq mod_self diff_zero)
  also have "\<dots> = v + 2 ^ 31 - 2 ^ 32"
    using a by (intro mod_pos_pos_trivial) auto
  finally show ?thesis unfolding toInt32_def by simp
qed

lemma shl2_small: "- (2 ^ 29) \<le> L \<Longrightarrow> L < 2 ^ 29 \<Longrightarrow> shl2 L = 4 * L"
  unfolding shl2_def by (simp add: toInt32_id)

lemma shl2_high: "2 ^ 29 \<le> L \<Longrightarrow> L < 2 ^ 30 \<Longrightarrow> shl2 L < 0"
  unfolding shl2_def by (simp add: toInt32_id toInt32_high)

lemma shl2_in_buffer:
  assumes "- (2 ^ 29) \<le> L" "L < 2 ^ 30" "n \<le> 2 ^ 29"
  shows "(0 \<le> shl2 L \<and> shl2 L < 4 * n) = (0 \<le> L \<and> L < n)"
proof (cases "L < 2 ^ 29")
  case True
  then show ?thesis using assms by (simp add: shl2_small)
next
  case False
  then have "shl2 L < 0" using assms by (intro shl2_high) auto
  then show ?thesis using False assms by auto
qed

lemma fillLoop_total:
  fixes m :: "FillState \<Rightarrow> nat"
  assumes step: "\<And>s. I s \<Longrightarrow> stack s \<noteq> [] \<Longrightarrow>
            I (fillStep img seed c s) \<and> m (fillStep img seed c s) < m s"
  shows "I s \<Longrightarrow> \<exists>t. fillLoop img seed c s = Some t \<and> I t \<and> stack t = []"
proof (induction "m s" arbitrary: s rule: less_induct)
  case less
  show ?case
  proof (cases "stack s = []")
    case True
    then show ?thesis using less.prems by (subst fillLoop.simps) simp
  next
    case False
    from step [OF less.prems False]
    have "\<exists>t. fillLoop img seed c (fillStep img seed c s) = Some t \<and> I t \<and> stack t = []"
      by (intro less.hyps) auto
    then show ?thesis using False by (subst fillLoop.simps) simp
  qed
qed

lemma zeros_update:
  assumes "i < length xs" "xs ! i = 0"
  shows "Suc (zeros (xs[i := Suc 0])) = zeros xs"
proof -
  have xs: "xs = take i xs @ xs ! i # drop (Suc i) xs"
    using assms(1) by (rule id_take_nth_drop)
  have "xs[i := Suc 0] = take i xs @ Suc 0 # drop (Suc i) xs"
    using assms(1) by (rule upd_conv_take_nth_drop)
  then have "zeros (xs[i := Suc 0]) = zeros (take i xs) + zeros (drop (Suc i) xs)"
    by (simp add: zeros_def)
  moreover have "zeros xs = zeros (take i xs) + 1 + zeros (drop (Suc i) xs)"
    by (subst xs) (simp add: zeros_def assms(2))
  ultimately show ?thesis by simp
qed

lemma fillStep_Cons:
  assumes "stack s = (x, y) # rest"
  shows "fillStep img (seedR, seedG, seedB) c s =
     (if numLe (colorDistanceSquared
                 (channel (data img) (shl2 (y * int (width img) + x)))
                 (channel (data img) (shl2 (y * int (width img) + x) + 1))
                 (channel (data img) (shl2 (y * int (width img) + x) + 2)) seedR seedG seedB) c
         then neighbours (int (width img)) (int (height img)) x y
                (accept (int (width img)) x y (channel (data img) (shl2 (y * int (width img) + x)))
                 (channel (data img) (shl2 (y * int (width img) + x) + 1))
                 (channel (data img) (shl2 (y * int (width img) + x) + 2)) (s\<lparr>stack := rest\<rparr>))
         else s\<lparr>stack := rest\<rparr>)"
  using assms by (simp add: fillStep_def Let_def)

lemma length_wr [simp]: "length (wr a i v) = length a"
  by (simp add: wr_def)

lemma visit_fields [simp]:
  "selected (visit s n p) = selected s" "count (visit s n p) = count s"
  "minX (visit s n p) = minX s" "maxX (visit s n p) = maxX s"
  "minY (visit s n p) = minY s" "maxY (visit s n p) = maxY s"
  "totalR (visit s n p) = totalR s" "totalG (visit s n p) = totalG s"
  "totalB (visit s n p) = totalB s"
  "length (visited (visit s n p)) = length (visited s)"
  by (simp_all add: visit_def)

lemma stack_visit:
  "stack (visit s n p) = stack s \<or> stack (visit s n p) = p # stack s"
  by (simp add: visit_def)

lemma fillMeasure_visit:
  assumes "length (visited s) = width img * height img" "lin (int (width img)) p = n"
  shows "fillMeasure img (visit s n p)
           \<le> fillMeasure img s + (if 0 \<le> n \<and> n < int (width img * height img) then 0 else 1)"
proof (cases "rd (visited s) n = None \<or> rd (visited s) n = Some 0")
  case False
  then have "visit s n p = s" by (auto simp: visit_def)
  then show ?thesis by simp
next
  case True
  show ?thesis
  proof (cases "0 \<le> n \<and> n < int (width img * height img)")
    case inside: True
    from inside have "nat n < width img * height img" by (simp add: nat_less_iff)
    then have l: "nat n < length (visited s)" using assms(1) by simp
    from True inside assms(1) have z: "visited s ! nat n = 0"
      by (auto simp: rd_def)
    have "Suc (zeros ((visited s)[nat n := Suc 0])) = zeros (visited s)"
      using l z by (rule zeros_update)
    then have "5 * zeros ((visited s)[nat n := Suc 0]) + 5 = 5 * zeros (visited s)"
      by simp
    then show ?thesis
      using True inside assms by (simp add: visit_def fillMeasure_def wr_def weight_def)
  next
    case outside: False
    then have "wr (visited s) n 1 = visited s" using assms(1) by (auto simp: wr_def)
    then show ?thesis
      using True outside assms by (simp add: visit_def fillMeasure_def weight_def)
  qed
qed

lemma neighbours_fields [simp]:
  "selected (neighbours w h x y s) = selected s" "count (neighbours w h x y s) = count s"
  "minX (neighbours w h x y s) = minX s" "maxX (neighbours w h x y s) = maxX s"
  "minY (neighbours w h x y s) = minY s" "maxY (neighbours w h x y s) = maxY s"
  "length (visited (neighbours w h x y s)) = length (visited s)"
  by (simp_all add: neighbours_def Let_def)

lemma stack_neighbours:
  assumes "p \<in> set (stack (neighbours w h x y s))"
  shows "p \<in> set (stack s) \<or> (p = (x - 1, y) \<and> x > 0) \<or> (p = (x + 1, y) \<and> x < w - 1)
         \<or> (p = (x, y - 1) \<and> y > 0) \<or> (p = (x, y + 1) \<and> y < h - 1)"
proof -
  define s1 where "s1 = (if x > 0 then visit s (y * w + x - 1) (x - 1, y) else s)"
  define s2 where "s2 = (if x < w - 1 then visit s1 (y * w + x + 1) (x + 1, y) else s1)"
  define s3 where "s3 = (if y > 0 then visit s2 (y * w + x - w) (x, y - 1) else s2)"
  define s4 where "s4 = (if y < h - 1 then visit s3 (y * w + x + w) (x, y + 1) else s3)"
  have e: "neighbours w h x y s = s4"
    by (simp add: neighbours_def Let_def s1_def s2_def s3_def s4_def)
  have 1: "set (stack s1) \<subseteq> set (stack s) \<union> {q. q = (x - 1, y) \<and> x > 0}"
    using stack_visit [of s "y * w + x - 1" "(x - 1, y)"] by (auto simp: s1_def)
  have 2: "set (stack s2) \<subseteq> set (stack s1) \<union> {q. q = (x + 1, y) \<and> x < w - 1}"
    using stack_visit [of s1 "y * w + x + 1" "(x + 1, y)"] by (auto simp: s2_def)
  have 3: "set (stack s3) \<subseteq> set (stack s2) \<union> {q. q = (x, y - 1) \<and> y > 0}"
    using stack_visit [of s2 "y * w + x - w" "(x, y - 1)"] by (auto simp: s3_def)
  have 4: "set (stack s4) \<subseteq> set (stack s3) \<union> {q. q = (x, y + 1) \<and> y < h - 1}"
    using stack_visit [of s3 "y * w + x + w" "(x, y + 1)"] by (auto simp: s4_def)
  from assms have "p \<in> set (stack s4)" by (simp only: e)
  with 1 2 3 4 show ?thesis by blast
qed

lemma fillMeasure_neighbours:
  assumes "length (visited s) = width img * height img"
  shows "fillMeasure img (neighbours (int (width img)) h x y s) \<le> fillMeasure img s + 4"
proof -
  let ?w = "int (width img)"
  define s1 where "s1 = (if x > 0 then visit s (y * ?w + x - 1) (x - 1, y) else s)"
  define s2 where "s2 = (if x < ?w - 1 then visit s1 (y * ?w + x + 1) (x + 1, y) else s1)"
  define s3 where "s3 = (if y > 0 then visit s2 (y * ?w + x - ?w) (x, y - 1) else s2)"
  define s4 where "s4 = (if y < h - 1 then visit s3 (y * ?w + x + ?w) (x, y + 1) else s3)"
  have e: "neighbours ?w h x y s = s4"
    by (simp add: neighbours_def Let_def s1_def s2_def s3_def s4_def)
  have l1: "length (visited s1) = width img * height img" using assms by (simp add: s1_def)
  have l2: "length (visited s2) = width img * height img" using l1 by (simp add: s2_def)
  have l3: "length (visited s3) = width img * height img" using l2 by (simp add: s3_def)
  have 1: "fillMeasure img s1 \<le> fillMeasure img s + 1"
    using fillMeasure_visit [OF assms, of "(x - 1, y)" "y * ?w + x - 1"]
    by (auto simp: s1_def lin_def split: if_splits)
  have 2: "fillMeasure img s2 \<le> fillMeasure img s1 + 1"
    using fillMeasure_visit [OF l1, of "(x + 1, y)" "y * ?w + x + 1"]
    by (auto simp: s2_def lin_def split: if_splits)
  have 3: "fillMeasure img s3 \<le> fillMeasure img s2 + 1"
    using fillMeasure_visit [OF l2, of "(x, y - 1)" "y * ?w + x - ?w"]
    by (auto simp: s3_def lin_def algebra_simps split: if_splits)
  have 4: "fillMeasure img s4 \<le> fillMeasure img s3 + 1"
    using fillMeasure_visit [OF l3, of "(x, y + 1)" "y * ?w + x + ?w"]
    by (auto simp: s4_def lin_def algebra_simps split: if_splits)
  from 1 2 3 4 show ?thesis unfolding e by linarith
qed

lemma accept_fields [simp]:
  "visited (accept w x y r g b s) = visited s" "stack (accept w x y r g b s) = stack s"
  "selected (accept w x y r g b s) = wr (selected s) (y * w + x) 1"
  "count (accept w x y r g b s) = count s + 1"
  "minX (accept w x y r g b s) = min x (minX s)" "maxX (accept w x y r g b s) = max x (maxX s)"
  "minY (accept w x y r g b s) = min y (minY s)" "maxY (accept w x y r g b s) = max y (maxY s)"
  by (simp_all add: accept_def min_def max_def)

lemma fillMeasure_accept [simp]: "fillMeasure img (accept w x y r g b s) = fillMeasure img s"
  by (simp add: fillMeasure_def)

lemma numLe_defined:
  assumes "numLe (colorDistanceSquared r g b r' g' b') c"
  shows "r \<noteq> None \<and> g \<noteq> None \<and> b \<noteq> None \<and> r' \<noteq> None \<and> g' \<noteq> None \<and> b' \<noteq> None"
  using assms by (auto simp: numLe_def colorDistanceSquared_def split: option.splits)

lemma channel_defined: "channel a i \<noteq> None \<Longrightarrow> 0 \<le> i \<and> i < int (length a)"
  by (auto simp: channel_def rd_def split: if_splits)

lemma fillStep_noWrap_measure:
  assumes v: "validImageData img" and n: "width img * height img \<le> 2 ^ 29"
    and J: "noWrap img s" and ne: "stack s \<noteq> []"
  shows "noWrap img (fillStep img seed c s) \<and>
         fillMeasure img (fillStep img seed c s) < fillMeasure img s"
proof -
  let ?w = "int (width img)" and ?N = "width img * height img"
  obtain x y rest where st: "stack s = (x, y) # rest" using ne by (cases "stack s") auto
  obtain seedR seedG seedB where seed: "seed = (seedR, seedG, seedB)" by (cases seed) auto
  let ?L = "y * ?w + x"
  let ?r = "channel (data img) (shl2 ?L)"
  let ?g = "channel (data img) (shl2 ?L + 1)"
  let ?b = "channel (data img) (shl2 ?L + 2)"
  let ?s0 = "s\<lparr>stack := rest\<rparr>"
  from J st have L: "- (2 ^ 29) \<le> ?L" "?L < 2 ^ 30" and lv: "length (visited s) = ?N"
    by (auto simp: noWrap_def lin_def)
  have rest: "\<forall>p\<in>set rest. - (2 ^ 29) \<le> lin ?w p \<and> lin ?w p < 2 ^ 30"
    using J st by (auto simp: noWrap_def)
  have m0: "fillMeasure img s = fillMeasure img ?s0 + weight ?N ?L"
    using st by (simp add: fillMeasure_def lin_def)
  show ?thesis
  proof (cases "numLe (colorDistanceSquared ?r ?g ?b seedR seedG seedB) c")
    case False
    then have e: "fillStep img seed c s = ?s0"
      unfolding seed by (simp add: fillStep_Cons [OF st])
    have "0 < weight ?N ?L" by (simp add: weight_def)
    then show ?thesis unfolding e using m0 rest lv by (simp add: noWrap_def)
  next
    case True
    then have e: "fillStep img seed c s = neighbours ?w (int (height img)) x y (accept ?w x y ?r ?g ?b ?s0)"
      unfolding seed by (simp add: fillStep_Cons [OF st])
    from True have "?r \<noteq> None" using numLe_defined by blast
    then have "0 \<le> shl2 ?L \<and> shl2 ?L < int (length (data img))" by (rule channel_defined)
    then have "0 \<le> shl2 ?L \<and> shl2 ?L < 4 * int ?N"
      using v by (simp add: validImageData_def)
    moreover have "int ?N \<le> int (2 ^ 29)" using n by (rule iffD2 [OF of_nat_le_iff])
    then have Nb: "int ?N \<le> 2 ^ 29" by simp
    ultimately have Lin: "0 \<le> ?L \<and> ?L < int ?N"
      using shl2_in_buffer [OF L Nb] by simp
    then have wt: "weight ?N ?L = 5" by (simp add: weight_def)
    have "fillMeasure img (fillStep img seed c s) \<le> fillMeasure img ?s0 + 4"
      unfolding e using fillMeasure_neighbours [of "accept ?w x y ?r ?g ?b ?s0" img] lv by simp
    then have less: "fillMeasure img (fillStep img seed c s) < fillMeasure img s"
      using m0 wt by simp
    have hpos: "0 < height img" using v by (simp add: validImageData_def)
    then have "width img \<le> ?N" by simp
    then have "?w \<le> int ?N" by (simp only: of_nat_le_iff)
    then have wb: "?w \<le> 2 ^ 29" using Nb by linarith
    have push: "- (2 ^ 29) \<le> lin ?w p \<and> lin ?w p < 2 ^ 30"
      if "p \<in> set (stack (fillStep img seed c s))" for p
    proof -
      from that stack_neighbours [of p ?w "int (height img)" x y "accept ?w x y ?r ?g ?b ?s0"]
      consider "p \<in> set rest" | "p = (x - 1, y)" | "p = (x + 1, y)" | "p = (x, y - 1)" | "p = (x, y + 1)"
        unfolding e by auto
      then show ?thesis
      proof cases
        case 1
        then show ?thesis using rest by blast
      next
        case 2
        then show ?thesis using Lin Nb by (simp add: lin_def)
      next
        case 3
        then show ?thesis using Lin Nb by (simp add: lin_def)
      next
        case 4
        then show ?thesis using Lin Nb wb by (simp add: lin_def algebra_simps)
      next
        case 5
        then show ?thesis using Lin Nb wb by (simp add: lin_def algebra_simps)
      qed
    qed
    have "length (visited (fillStep img seed c s)) = ?N" unfolding e using lv by simp
    with push less show ?thesis by (auto simp: noWrap_def)
  qed
qed

lemma fillLoop_terminates:
  assumes "validImageData img" "width img * height img \<le> 2 ^ 29" "noWrap img s"
  shows "\<exists>t. fillLoop img seed c s = Some t \<and> noWrap img t \<and> stack t = []"
proof (rule fillLoop_total [where I = "noWrap img" and m = "fillMeasure img"])
  show "noWrap img s" by (rule assms(3))
  show "noWrap img (fillStep img seed c s) \<and>
        fillMeasure img (fillStep img seed c s) < fillMeasure img s"
    if "noWrap img s" "stack s \<noteq> []" for s
    using that by (rule fillStep_noWrap_measure [OF assms(1,2)])
qed

lemma lin_bounds:
  fixes x y w h :: int
  assumes "0 \<le> x" "x < w" "0 \<le> y" "y < h"
  shows "0 \<le> y * w + x" "y * w + x < w * h" "(y * w + x) mod w = x" "(y * w + x) div w = y"
proof -
  show "0 \<le> y * w + x" using assms by simp
  have "y * w + x < y * w + w" using assms by simp
  also have "\<dots> = (y + 1) * w" by (simp add: algebra_simps)
  also have "\<dots> \<le> h * w" using assms by (intro mult_right_mono) auto
  finally show "y * w + x < w * h" by (simp add: mult.commute)
  show "(y * w + x) mod w = x" using assms by (simp add: mod_pos_pos_trivial)
  show "(y * w + x) div w = y" using assms by (simp add: div_pos_pos_trivial)
qed

lemma selSet_wr:
  assumes "0 \<le> L" "L < int (length (selected s))"
  shows "selSet (s\<lparr>selected := wr (selected s) L 1\<rparr>) = insert (nat L) (selSet s)"
  using assms by (auto simp: selSet_def wr_def nth_list_update)

lemma selSet_cong: "selected s = selected t \<Longrightarrow> selSet s = selSet t"
  by (simp add: selSet_def)

lemma withinTolerance_self:
  assumes "fst p \<noteq> None" "fst (snd p) \<noteq> None" "snd (snd p) \<noteq> None" "0 \<le> c"
  shows "withinTolerance p p c"
proof -
  from assms(1-3) obtain r g b where p: "p = (Some r, Some g, Some b)" by (cases p) auto
  show ?thesis unfolding p using assms(4)
    by (simp add: withinTolerance_def numLe_def colorDistanceSquared_def)
qed

lemma fillStep_fillInv:
  assumes v: "validImageData img" and n: "width img * height img \<le> 2 ^ 29"
    and seed: "seed = pixelAt img sx sy" and c: "0 \<le> c"
    and sx: "0 \<le> sx" "sx < int (width img)" and sy: "0 \<le> sy" "sy < int (height img)"
    and I: "fillInv img seed c sx sy s" and ne: "stack s \<noteq> []"
  shows "fillInv img seed c sx sy (fillStep img seed c s)"
proof -
  let ?w = "int (width img)" and ?h = "int (height img)" and ?N = "width img * height img"
  obtain x y rest where st: "stack s = (x, y) # rest" using ne by (cases "stack s") auto
  obtain seedR seedG seedB where sd: "seed = (seedR, seedG, seedB)" by (cases seed) auto
  let ?L = "y * ?w + x"
  let ?r = "channel (data img) (shl2 ?L)"
  let ?g = "channel (data img) (shl2 ?L + 1)"
  let ?b = "channel (data img) (shl2 ?L + 2)"
  let ?s0 = "s\<lparr>stack := rest\<rparr>"
  from I st have xy: "0 \<le> x" "x < ?w" "0 \<le> y" "y < ?h"
    by (auto simp: fillInv_def)
  note lb = lin_bounds [OF xy]
  have "int ?N \<le> int (2 ^ 29)" using n by (rule iffD2 [OF of_nat_le_iff])
  then have Nb: "int ?N \<le> 2 ^ 29" by simp
  have LN: "?L < int ?N" using lb(2) by simp
  have sh: "shl2 ?L = 4 * ?L" using lb(1) LN Nb by (intro shl2_small) auto
  have ls: "length (selected s) = ?N" using I by (simp add: fillInv_def)
  have colL: "col img (nat ?L) = x" and rowL: "row img (nat ?L) = y"
    using lb by (simp_all add: col_def row_def)
  have px: "pixelAt img x y = (?r, ?g, ?b)" by (simp add: pixelAt_def sh Let_def)
  have near_iff: "numLe (colorDistanceSquared ?r ?g ?b seedR seedG seedB) c
      = withinTolerance (pixelAt img x y) seed c"
    by (simp add: withinTolerance_def px sd)
  have seed_near: "withinTolerance (pixelAt img sx sy) seed c"
  proof -
    note sb = lin_bounds [OF sx sy]
    have "4 * (sy * ?w + sx) + 2 < int (length (data img))" "0 \<le> 4 * (sy * ?w + sx)"
      using sb(1,2) v by (simp_all add: validImageData_def)
    then have "fst (pixelAt img sx sy) \<noteq> None" "fst (snd (pixelAt img sx sy)) \<noteq> None"
      "snd (snd (pixelAt img sx sy)) \<noteq> None"
      by (simp_all add: pixelAt_def Let_def channel_def rd_def)
    then show ?thesis unfolding seed using c by (rule withinTolerance_self)
  qed
  show ?thesis
  proof (cases "withinTolerance (pixelAt img x y) seed c")
    case False
    then have e: "fillStep img seed c s = ?s0"
      unfolding sd using near_iff by (simp add: fillStep_Cons [OF st] sd)
    have notseed: "stack s \<noteq> [(sx, sy)]"
      using False seed_near st by auto
    have "selSet ?s0 = selSet s" by (rule selSet_cong) simp
    then show ?thesis unfolding e using I st notseed by (auto simp: fillInv_def)
  next
    case True
    define s1 where "s1 = accept ?w x y ?r ?g ?b ?s0"
    have e: "fillStep img seed c s = neighbours ?w ?h x y s1"
      unfolding sd s1_def using near_iff True by (simp add: fillStep_Cons [OF st] sd)
    have sel1: "selSet s1 = insert (nat ?L) (selSet s)"
    proof -
      have "selSet s1 = selSet (s\<lparr>selected := wr (selected s) ?L 1\<rparr>)"
        by (rule selSet_cong) (simp add: s1_def)
      also have "\<dots> = insert (nat ?L) (selSet s)"
        using lb(1) LN ls by (intro selSet_wr) auto
      finally show ?thesis .
    qed
    have sel: "selSet (fillStep img seed c s) = insert (nat ?L) (selSet s)"
      unfolding e using sel1 selSet_cong [of "neighbours ?w ?h x y s1" s1] by simp
    have b1: "minX (fillStep img seed c s) = min x (minX s)" "maxX (fillStep img seed c s) = max x (maxX s)"
      "minY (fillStep img seed c s) = min y (minY s)" "maxY (fillStep img seed c s) = max y (maxY s)"
      unfolding e s1_def by simp_all
    have len: "length (selected (fillStep img seed c s)) = ?N"
      unfolding e s1_def using ls by simp
    have stk: "0 \<le> fst p \<and> fst p < ?w \<and> 0 \<le> snd p \<and> snd p < ?h"
      if "p \<in> set (stack (fillStep img seed c s))" for p
    proof -
      from that stack_neighbours [of p ?w ?h x y s1]
      consider "p \<in> set rest" | "p = (x - 1, y)" "x > 0" | "p = (x + 1, y)" "x < ?w - 1"
        | "p = (x, y - 1)" "y > 0" | "p = (x, y + 1)" "y < ?h - 1"
        unfolding e s1_def by auto
      then show ?thesis
        using I st xy by cases (auto simp: fillInv_def)
    qed
    have old: "withinTolerance (pixelAt img (col img k) (row img k)) seed c \<and>
          minX s \<le> col img k \<and> col img k \<le> maxX s \<and> minY s \<le> row img k \<and> row img k \<le> maxY s"
      if "k \<in> selSet s" for k using I that by (auto simp: fillInv_def)
    have inv3: "withinTolerance (pixelAt img (col img k) (row img k)) seed c \<and>
          min x (minX s) \<le> col img k \<and> col img k \<le> max x (maxX s) \<and>
          min y (minY s) \<le> row img k \<and> row img k \<le> max y (maxY s)"
      if "k \<in> insert (nat ?L) (selSet s)" for k
    proof (cases "k = nat ?L")
      case True
      then show ?thesis using \<open>withinTolerance (pixelAt img x y) seed c\<close> colL rowL by simp
    next
      case False
      with that have "k \<in> selSet s" by simp
      from old [OF this] show ?thesis by auto
    qed
    have inv4: "0 \<le> min x (minX s)" "max x (maxX s) < ?w" "0 \<le> min y (minY s)" "max y (maxY s) < ?h"
      using I xy by (auto simp: fillInv_def)
    have inv5: "(\<exists>k\<in>insert (nat ?L) (selSet s). col img k = min x (minX s)) \<and>
                (\<exists>k\<in>insert (nat ?L) (selSet s). col img k = max x (maxX s)) \<and>
                (\<exists>k\<in>insert (nat ?L) (selSet s). row img k = min y (minY s)) \<and>
                (\<exists>k\<in>insert (nat ?L) (selSet s). row img k = max y (maxY s))"
    proof -
      from I consider
        (first) "stack s = [(sx, sy)]" "minX s = sx" "maxX s = sx" "minY s = sy" "maxY s = sy"
        | (later) "\<exists>k\<in>selSet s. col img k = minX s" "\<exists>k\<in>selSet s. col img k = maxX s"
            "\<exists>k\<in>selSet s. row img k = minY s" "\<exists>k\<in>selSet s. row img k = maxY s"
        by (auto simp: fillInv_def)
      then show ?thesis
      proof cases
        case first
        with st have "x = sx" "y = sy" by auto
        with first colL rowL show ?thesis by simp
      next
        case later
        have "\<exists>k\<in>insert (nat ?L) (selSet s). col img k = min x (minX s)"
          using later(1) colL by (cases "x \<le> minX s") (auto simp: min_def)
        moreover have "\<exists>k\<in>insert (nat ?L) (selSet s). col img k = max x (maxX s)"
          using later(2) colL by (cases "x \<le> maxX s") (auto simp: max_def)
        moreover have "\<exists>k\<in>insert (nat ?L) (selSet s). row img k = min y (minY s)"
          using later(3) rowL by (cases "y \<le> minY s") (auto simp: min_def)
        moreover have "\<exists>k\<in>insert (nat ?L) (selSet s). row img k = max y (maxY s)"
          using later(4) rowL by (cases "y \<le> maxY s") (auto simp: max_def)
        ultimately show ?thesis by blast
      qed
    qed
    show ?thesis
      unfolding fillInv_def sel b1
      using len stk inv3 inv4 inv5 by blast
  qed
qed

lemma fold_wr_length [simp]:
  "length (fold (\<lambda>x m. if P x then wr m (f x) 1 else m) xs m) = length m"
  by (induction xs arbitrary: m) auto

lemma fold_wr_nth:
  "k < length m \<Longrightarrow>
   fold (\<lambda>x m. if P x then wr m (f x) 1 else m) xs m ! k =
     (if \<exists>x\<in>set xs. P x \<and> f x = int k then 1 else m ! k)"
proof (induction xs arbitrary: m)
  case Nil
  then show ?case by simp
next
  case (Cons a xs)
  show ?case
  proof (cases "P a")
    case False
    then show ?thesis using Cons by auto
  next
    case True
    have "fold (\<lambda>x m. if P x then wr m (f x) 1 else m) (a # xs) m ! k
        = (if \<exists>x\<in>set xs. P x \<and> f x = int k then 1 else wr m (f a) 1 ! k)"
      using True Cons.IH [of "wr m (f a) 1"] Cons.prems by simp
    also have "wr m (f a) 1 ! k = (if f a = int k then 1 else m ! k)"
      using Cons.prems by (auto simp: wr_def nth_list_update)
    finally show ?thesis using True by auto
  qed
qed

lemma fold_fold_wr_length [simp]:
  "length (fold (\<lambda>y m. fold (\<lambda>x m. if P y x then wr m (f y x) 1 else m) xs m) ys m) = length m"
  by (induction ys arbitrary: m) auto

lemma fold_fold_wr_nth:
  "k < length m \<Longrightarrow>
   fold (\<lambda>y m. fold (\<lambda>x m. if P y x then wr m (f y x) 1 else m) xs m) ys m ! k =
     (if \<exists>y\<in>set ys. \<exists>x\<in>set xs. P y x \<and> f y x = int k then 1 else m ! k)"
proof (induction ys arbitrary: m)
  case Nil
  then show ?case by simp
next
  case (Cons a ys)
  have "fold (\<lambda>y m. fold (\<lambda>x m. if P y x then wr m (f y x) 1 else m) xs m) (a # ys) m ! k
      = (if \<exists>y\<in>set ys. \<exists>x\<in>set xs. P y x \<and> f y x = int k then 1
         else fold (\<lambda>x m. if P a x then wr m (f a x) 1 else m) xs m ! k)"
    using Cons.IH [of "fold (\<lambda>x m. if P a x then wr m (f a x) 1 else m) xs m"] Cons.prems
    by simp
  also have "fold (\<lambda>x m. if P a x then wr m (f a x) 1 else m) xs m ! k
      = (if \<exists>x\<in>set xs. P a x \<and> f a x = int k then 1 else m ! k)"
    using Cons.prems by (rule fold_wr_nth)
  finally show ?case by auto
qed

lemma divmod_unique:
  fixes a b bw k :: int
  assumes "0 \<le> b" "b < bw"
  shows "(a * bw + b = k) = (a = k div bw \<and> b = k mod bw)"
proof
  assume "a * bw + b = k"
  then have k: "k = a * bw + b" by simp
  show "a = k div bw \<and> b = k mod bw"
    unfolding k using assms by (simp add: div_pos_pos_trivial mod_pos_pos_trivial)
next
  assume "a = k div bw \<and> b = k mod bw"
  then show "a * bw + b = k" by simp
qed

lemma boundsMask_length:
  "length (boundsMask sel w mnX mxX mnY mxY) = nat ((mxX - mnX + 1) * (mxY - mnY + 1))"
  by (simp add: boundsMask_def Let_def)

lemma boundsMask_nth:
  assumes bx: "0 \<le> mnX" "mnX \<le> mxX" "mxX < w" and bnd: "0 \<le> mnY" "mnY \<le> mxY" "mxY < h"
    and len: "int (length sel) = w * h"
    and k: "int k < (mxX - mnX + 1) * (mxY - mnY + 1)"
  shows "boundsMask sel w mnX mxX mnY mxY ! k =
     (if sel ! nat ((mnY + int k div (mxX - mnX + 1)) * w + (mnX + int k mod (mxX - mnX + 1))) \<noteq> 0
      then 1 else 0)"
proof -
  let ?bw = "mxX - mnX + 1" and ?bh = "mxY - mnY + 1"
  let ?P = "\<lambda>y x. truthy (rd sel (y * w + x))"
  let ?f = "\<lambda>y x. (y - mnY) * ?bw - mnX + x"
  let ?a = "int k div ?bw" and ?b = "int k mod ?bw"
  have bwpos: "0 < ?bw" using bx by simp
  have kl: "k < length (replicate (nat (?bw * ?bh)) (0::nat))" using k by simp
  have "boundsMask sel w mnX mxX mnY mxY ! k =
      (if \<exists>y\<in>set [mnY..mxY]. \<exists>x\<in>set [mnX..mxX]. ?P y x \<and> ?f y x = int k then 1
       else replicate (nat (?bw * ?bh)) 0 ! k)"
    unfolding boundsMask_def Let_def using kl by (rule fold_fold_wr_nth)
  also have "replicate (nat (?bw * ?bh)) 0 ! k = (0::nat)" using kl by simp
  finally have 1: "boundsMask sel w mnX mxX mnY mxY ! k =
      (if \<exists>y\<in>set [mnY..mxY]. \<exists>x\<in>set [mnX..mxX]. ?P y x \<and> ?f y x = int k then 1 else 0)" .
  have b: "0 \<le> ?b" "?b < ?bw"
    using bwpos pos_mod_sign [of ?bw "int k"] pos_mod_bound [of ?bw "int k"] by blast+
  have a0: "0 \<le> ?a" using bwpos by (simp add: pos_imp_zdiv_nonneg_iff)
  have a1: "?a < ?bh"
  proof (rule ccontr)
    assume "\<not> ?a < ?bh"
    then have "?bh \<le> ?a" by simp
    then have "?bw * ?bh \<le> ?bw * ?a" using bwpos by (intro mult_left_mono) auto
    moreover have "?bw * ?a + ?b = int k" by (rule mult_div_mod_eq)
    ultimately have "?bw * ?bh \<le> int k" using b(1) by linarith
    then show False using k by linarith
  qed
  have ex: "(\<exists>y\<in>set [mnY..mxY]. \<exists>x\<in>set [mnX..mxX]. ?P y x \<and> ?f y x = int k)
      = ?P (mnY + ?a) (mnX + ?b)"
  proof
    assume "\<exists>y\<in>set [mnY..mxY]. \<exists>x\<in>set [mnX..mxX]. ?P y x \<and> ?f y x = int k"
    then obtain y x where yx: "mnY \<le> y" "y \<le> mxY" "mnX \<le> x" "x \<le> mxX" "?P y x"
      and f: "(y - mnY) * ?bw + (x - mnX) = int k" by (auto simp: algebra_simps)
    have "y - mnY = ?a \<and> x - mnX = ?b"
      using divmod_unique [of "x - mnX" ?bw "y - mnY" "int k"] f yx by simp
    then have "y = mnY + ?a" "x = mnX + ?b" by auto
    with yx(5) show "?P (mnY + ?a) (mnX + ?b)" by simp
  next
    assume P: "?P (mnY + ?a) (mnX + ?b)"
    have "mnY + ?a \<in> set [mnY..mxY]" using a0 a1 by simp
    moreover have "mnX + ?b \<in> set [mnX..mxX]" using b by simp
    moreover have "?f (mnY + ?a) (mnX + ?b) = int k"
      using div_mult_mod_eq [of "int k" ?bw] by simp
    ultimately show "\<exists>y\<in>set [mnY..mxY]. \<exists>x\<in>set [mnX..mxX]. ?P y x \<and> ?f y x = int k"
      using P by blast
  qed
  have xy: "0 \<le> mnX + ?b" "mnX + ?b < w" "0 \<le> mnY + ?a" "mnY + ?a < h"
    using b a0 a1 bx bnd by auto
  note lb = lin_bounds [OF xy]
  have "?P (mnY + ?a) (mnX + ?b) = (sel ! nat ((mnY + ?a) * w + (mnX + ?b)) \<noteq> 0)"
    using lb(1,2) len by (simp add: truthy_def rd_def)
  with 1 ex show ?thesis by simp
qed

lemma fillLoop_from_seed:
  assumes v: "validImageData img" and n: "width img * height img \<le> 2 ^ 29"
    and sx: "0 \<le> sx" "sx < int (width img)" and sy: "0 \<le> sy" "sy < int (height img)"
    and c: "0 \<le> c"
  defines "s0 \<equiv> \<lparr>visited = wr (replicate (width img * height img) 0) (sy * int (width img) + sx) 1,
                selected = replicate (width img * height img) 0,
                stack = [(sx, sy)],
                minX = sx, maxX = sx, minY = sy, maxY = sy,
                totalR = Some 0, totalG = Some 0, totalB = Some 0, count = 0\<rparr>"
  shows "\<exists>t. fillLoop img (pixelAt img sx sy) c s0 = Some t \<and>
             fillInv img (pixelAt img sx sy) c sx sy t \<and> stack t = []"
proof -
  let ?seed = "pixelAt img sx sy"
  let ?I = "\<lambda>s. noWrap img s \<and> fillInv img ?seed c sx sy s"
  note lb = lin_bounds [OF sx sy]
  have "int (width img * height img) \<le> int (2 ^ 29)" using n by (rule iffD2 [OF of_nat_le_iff])
  then have Nb: "int (width img * height img) \<le> 2 ^ 29" by simp
  have "noWrap img s0"
    using lb(1,2) Nb by (simp add: noWrap_def s0_def lin_def)
  moreover have "selSet s0 = {}" by (auto simp: selSet_def s0_def)
  then have "fillInv img ?seed c sx sy s0"
    using sx sy by (simp add: fillInv_def) (simp add: s0_def)
  ultimately have I0: "?I s0" by simp
  have "\<exists>t. fillLoop img ?seed c s0 = Some t \<and> ?I t \<and> stack t = []"
  proof (rule fillLoop_total [where I = ?I and m = "fillMeasure img"])
    show "?I s0" by (rule I0)
    show "?I (fillStep img ?seed c s) \<and> fillMeasure img (fillStep img ?seed c s) < fillMeasure img s"
      if "?I s" "stack s \<noteq> []" for s
      using that fillStep_noWrap_measure [OF v n, of s ?seed c]
        fillStep_fillInv [OF v n refl c sx sy, of s] by blast
  qed
  then show ?thesis by blast
qed


lemma boundsMask_selected:
  assumes bx: "0 \<le> mnX" "mnX \<le> mxX" "mxX < w" and bnd: "0 \<le> mnY" "mnY \<le> mxY" "mxY < h"
    and len: "int (length sel) = w * h"
    and K: "K < length sel" "sel ! K \<noteq> 0"
    and cx: "mnX \<le> int K mod w" "int K mod w \<le> mxX"
    and cy: "mnY \<le> int K div w" "int K div w \<le> mxY"
  shows "\<exists>k. int k < (mxX - mnX + 1) * (mxY - mnY + 1) \<and>
             boundsMask sel w mnX mxX mnY mxY ! k \<noteq> 0 \<and>
             int k mod (mxX - mnX + 1) = int K mod w - mnX \<and>
             int k div (mxX - mnX + 1) = int K div w - mnY"
proof -
  let ?bw = "mxX - mnX + 1" and ?bh = "mxY - mnY + 1"
  let ?a = "int K div w - mnY" and ?b = "int K mod w - mnX"
  define k where "k = nat (?a * ?bw + ?b)"
  have ab: "0 \<le> ?b" "?b < ?bw" "0 \<le> ?a" "?a < ?bh" using cx cy by auto
  note lb = lin_bounds [OF ab]
  have ik: "int k = ?a * ?bw + ?b" using lb(1) by (simp add: k_def)
  have kb: "int k < ?bw * ?bh" using lb(2) ik by simp
  have m: "int k mod ?bw = ?b" and d: "int k div ?bw = ?a"
    using lb(3,4) ik by simp_all
  have "boundsMask sel w mnX mxX mnY mxY ! k =
     (if sel ! nat ((mnY + int k div ?bw) * w + (mnX + int k mod ?bw)) \<noteq> 0 then 1 else 0)"
    using bx bnd len kb by (intro boundsMask_nth) auto
  also have "(mnY + int k div ?bw) * w + (mnX + int k mod ?bw) = int K"
    unfolding m d using div_mult_mod_eq [of "int K" w] by simp
  finally have "boundsMask sel w mnX mxX mnY mxY ! k \<noteq> 0" using K by simp
  with kb m d show ?thesis by blast
qed

lemma magicSelect_result:
  assumes "fillLoop img
       (channel (data img) (shl2 (startY * int (width img) + startX)),
        channel (data img) (shl2 (startY * int (width img) + startX) + 1),
        channel (data img) (shl2 (startY * int (width img) + startX) + 2))
       (tolerance * 4.42 * (tolerance * 4.42))
       \<lparr>visited = wr (replicate (width img * height img) 0) (startY * int (width img) + startX) 1,
        selected = replicate (width img * height img) 0, stack = [(startX, startY)],
        minX = startX, maxX = startX, minY = startY, maxY = startY,
        totalR = Some 0, totalG = Some 0, totalB = Some 0, count = 0\<rparr> = Some t"
  shows "magicSelect img startX startY tolerance = Some
     \<lparr>maskRLE = encodeMaskToRLE (boundsMask (selected t) (int (width img)) (minX t) (maxX t) (minY t) (maxY t)),
      bounds = \<lparr>bounds_x = minX t, bounds_y = minY t,
                bounds_width = nat (maxX t - minX t + 1), bounds_height = nat (maxY t - minY t + 1)\<rparr>,
      pixelCount = count t,
      averageColor = (average (totalR t) (count t) (channel (data img) (shl2 (startY * int (width img) + startX))),
                      average (totalG t) (count t) (channel (data img) (shl2 (startY * int (width img) + startX) + 1)),
                      average (totalB t) (count t) (channel (data img) (shl2 (startY * int (width img) + startX) + 2))),
      regionMode = Remove\<rparr>"
  unfolding magicSelect_def Let_def assms option.case ..

lemma fill_bounds:
  assumes inv: "fillInv img seed c sx sy t" and emp: "stack t = []"
  shows "0 \<le> minX t" "minX t \<le> maxX t" "maxX t < int (width img)"
    "0 \<le> minY t" "minY t \<le> maxY t" "maxY t < int (height img)"
proof -
  from inv emp obtain K1 K2 where K: "K1 \<in> selSet t" "col img K1 = minX t"
      "K2 \<in> selSet t" "row img K2 = minY t"
    by (auto simp: fillInv_def)
  from inv K(1) have "minX t \<le> col img K1" "col img K1 \<le> maxX t" by (auto simp: fillInv_def)
  with K(2) show "minX t \<le> maxX t" by simp
  from inv K(3) have "minY t \<le> row img K2" "row img K2 \<le> maxY t" by (auto simp: fillInv_def)
  with K(4) show "minY t \<le> maxY t" by simp
  from inv show "0 \<le> minX t" "maxX t < int (width img)" "0 \<le> minY t" "maxY t < int (height img)"
    by (auto simp: fillInv_def)
qed

lemma box_in_image:
  fixes a b w h :: int
  assumes "0 < a" "a \<le> w" "0 < b" "b \<le> h"
  shows "a * b \<le> w * h"
  using assms by (intro mult_mono) auto

lemma fill_mask_length:
  assumes n: "width img * height img \<le> 2 ^ 29"
    and inv: "fillInv img seed c sx sy t" and emp: "stack t = []"
  shows "length (boundsMask (selected t) (int (width img)) (minX t) (maxX t) (minY t) (maxY t))
           = nat (maxX t - minX t + 1) * nat (maxY t - minY t + 1)"
    and "length (boundsMask (selected t) (int (width img)) (minX t) (maxX t) (minY t) (maxY t))
           < 2 ^ 32"
proof -
  let ?bw = "maxX t - minX t + 1" and ?bh = "maxY t - minY t + 1"
  let ?msk = "boundsMask (selected t) (int (width img)) (minX t) (maxX t) (minY t) (maxY t)"
  note b = fill_bounds [OF inv emp]
  have pos: "0 < ?bw" "0 < ?bh" using b by auto
  have sz: "nat ?bw * nat ?bh = nat (?bw * ?bh)" using pos by (simp add: nat_mult_distrib)
  show l: "length ?msk = nat ?bw * nat ?bh" by (simp add: boundsMask_length sz)
  have "int (width img * height img) \<le> int (2 ^ 29)" using n by (rule iffD2 [OF of_nat_le_iff])
  then have Nb: "int (width img) * int (height img) \<le> 2 ^ 29" by simp
  have "?bw \<le> int (width img)" "?bh \<le> int (height img)" using b by auto
  with pos have "?bw * ?bh \<le> int (width img) * int (height img)"
    by (intro box_in_image) auto
  with Nb have small: "?bw * ?bh \<le> 2 ^ 29" by linarith
  have "int (length ?msk) = ?bw * ?bh" using l sz pos by simp
  with small have "int (length ?msk) \<le> 2 ^ 29" by simp
  also have "(2::int) ^ 29 < 2 ^ 32" by simp
  finally have "int (length ?msk) < int (2 ^ 32)" by simp
  then show "length ?msk < 2 ^ 32" by (simp only: of_nat_less_iff)
qed

lemma int_divmod_nat:
  assumes "0 < bw"
  shows "int (k mod nat bw) = int k mod bw" "int (k div nat bw) = int k div bw"
  using assms by (simp_all add: zmod_int zdiv_int)

lemma divmod_in_box:
  fixes bw bh :: int
  assumes "0 < bw" "int k < bw * bh"
  shows "0 \<le> int k mod bw" "int k mod bw < bw" "0 \<le> int k div bw" "int k div bw < bh"
proof -
  show b0: "0 \<le> int k mod bw" using assms(1) by (rule pos_mod_sign)
  show "int k mod bw < bw" using assms(1) by (rule pos_mod_bound)
  show "0 \<le> int k div bw" using assms(1) by (simp add: pos_imp_zdiv_nonneg_iff)
  show "int k div bw < bh"
  proof (rule ccontr)
    assume "\<not> int k div bw < bh"
    then have "bh \<le> int k div bw" by simp
    then have "bw * bh \<le> bw * (int k div bw)" using assms(1) by (intro mult_left_mono) auto
    moreover have "bw * (int k div bw) + int k mod bw = int k" by (rule mult_div_mod_eq)
    ultimately have "bw * bh \<le> int k" using b0 by linarith
    then show False using assms(2) by linarith
  qed
qed

lemma fill_mask_contained:
  assumes inv: "fillInv img seed c sx sy t" and emp: "stack t = []"
    and k: "k < nat (maxX t - minX t + 1) * nat (maxY t - minY t + 1)"
    and set: "boundsMask (selected t) (int (width img)) (minX t) (maxX t) (minY t) (maxY t) ! k \<noteq> 0"
  shows "0 \<le> minX t + int (k mod nat (maxX t - minX t + 1))"
    "minX t + int (k mod nat (maxX t - minX t + 1)) < int (width img)"
    "0 \<le> minY t + int (k div nat (maxX t - minX t + 1))"
    "minY t + int (k div nat (maxX t - minX t + 1)) < int (height img)"
    "withinTolerance (pixelAt img (minX t + int (k mod nat (maxX t - minX t + 1)))
        (minY t + int (k div nat (maxX t - minX t + 1)))) seed c"
proof -
  let ?w = "int (width img)" and ?h = "int (height img)"
  let ?bw = "maxX t - minX t + 1" and ?bh = "maxY t - minY t + 1"
  let ?x = "minX t + int k mod ?bw" and ?y = "minY t + int k div ?bw"
  note b = fill_bounds [OF inv emp]
  have pos: "0 < ?bw" "0 < ?bh" using b by auto
  have sz: "nat ?bw * nat ?bh = nat (?bw * ?bh)" using pos by (simp add: nat_mult_distrib)
  have ki: "int k < ?bw * ?bh" using k sz by linarith
  note dm = divmod_in_box [OF pos(1) ki]
  note cm = int_divmod_nat [OF pos(1), of k]
  have leni: "int (length (selected t)) = ?w * ?h" using inv by (simp add: fillInv_def)
  have "boundsMask (selected t) ?w (minX t) (maxX t) (minY t) (maxY t) ! k
      = (if selected t ! nat (?y * ?w + ?x) \<noteq> 0 then 1 else 0)"
    using b leni ki by (intro boundsMask_nth) auto
  with set have s1: "selected t ! nat (?y * ?w + ?x) \<noteq> 0" by (simp split: if_splits)
  have xy: "0 \<le> ?x" "?x < ?w" "0 \<le> ?y" "?y < ?h" using dm b by auto
  note l = lin_bounds [OF xy]
  let ?K = "nat (?y * ?w + ?x)"
  have "?K < length (selected t)" using l(1,2) leni by linarith
  with s1 have KS: "?K \<in> selSet t" by (simp add: selSet_def)
  have cr: "col img ?K = ?x" "row img ?K = ?y" using l by (simp_all add: col_def row_def)
  from inv KS have "withinTolerance (pixelAt img (col img ?K) (row img ?K)) seed c"
    by (simp add: fillInv_def)
  then show "withinTolerance (pixelAt img (minX t + int (k mod nat ?bw)) (minY t + int (k div nat ?bw))) seed c"
    unfolding cr cm .
  show "0 \<le> minX t + int (k mod nat ?bw)" "minX t + int (k mod nat ?bw) < ?w"
    "0 \<le> minY t + int (k div nat ?bw)" "minY t + int (k div nat ?bw) < ?h"
    unfolding cm using xy by auto
qed

lemma fill_mask_attained:
  assumes inv: "fillInv img seed c sx sy t" and emp: "stack t = []" and KS: "K \<in> selSet t"
  shows "\<exists>k<nat (maxX t - minX t + 1) * nat (maxY t - minY t + 1).
      boundsMask (selected t) (int (width img)) (minX t) (maxX t) (minY t) (maxY t) ! k \<noteq> 0 \<and>
      int (k mod nat (maxX t - minX t + 1)) = col img K - minX t \<and>
      int (k div nat (maxX t - minX t + 1)) = row img K - minY t"
proof -
  let ?w = "int (width img)" and ?h = "int (height img)"
  let ?bw = "maxX t - minX t + 1" and ?bh = "maxY t - minY t + 1"
  note b = fill_bounds [OF inv emp]
  have pos: "0 < ?bw" "0 < ?bh" using b by auto
  have sz: "nat ?bw * nat ?bh = nat (?bw * ?bh)" using pos by (simp add: nat_mult_distrib)
  have leni: "int (length (selected t)) = ?w * ?h" using inv by (simp add: fillInv_def)
  from KS have K: "K < length (selected t)" "selected t ! K \<noteq> 0" by (auto simp: selSet_def)
  from inv KS have box: "minX t \<le> int K mod ?w" "int K mod ?w \<le> maxX t"
      "minY t \<le> int K div ?w" "int K div ?w \<le> maxY t"
    by (auto simp: fillInv_def col_def row_def)
  from boundsMask_selected [OF b(1,2,3) b(4,5,6) leni K box]
  obtain k where k: "int k < ?bw * ?bh"
      "boundsMask (selected t) ?w (minX t) (maxX t) (minY t) (maxY t) ! k \<noteq> 0"
      "int k mod ?bw = int K mod ?w - minX t" "int k div ?bw = int K div ?w - minY t"
    by blast
  have "k < nat ?bw * nat ?bh" using k(1) sz by linarith
  moreover note k(2)
  moreover have "int (k mod nat ?bw) = col img K - minX t"
    using k(3) int_divmod_nat(1) [OF pos(1), of k] by (simp add: col_def)
  moreover have "int (k div nat ?bw) = row img K - minY t"
    using k(4) int_divmod_nat(2) [OF pos(1), of k] by (simp add: row_def)
  ultimately show ?thesis by blast
qed

lemma fill_mask_tight:
  assumes inv: "fillInv img seed c sx sy t" and emp: "stack t = []"
  defines "bw \<equiv> nat (maxX t - minX t + 1)" and "bh \<equiv> nat (maxY t - minY t + 1)"
    and "msk \<equiv> boundsMask (selected t) (int (width img)) (minX t) (maxX t) (minY t) (maxY t)"
  shows "\<exists>k<bw * bh. msk ! k \<noteq> 0 \<and> k mod bw = 0"
    and "\<exists>k<bw * bh. msk ! k \<noteq> 0 \<and> k mod bw = bw - 1"
    and "\<exists>k<bw * bh. msk ! k \<noteq> 0 \<and> k div bw = 0"
    and "\<exists>k<bw * bh. msk ! k \<noteq> 0 \<and> k div bw = bh - 1"
proof -
  note b = fill_bounds [OF inv emp]
  from inv emp obtain K1 K2 K3 K4 where K:
    "K1 \<in> selSet t" "col img K1 = minX t" "K2 \<in> selSet t" "col img K2 = maxX t"
    "K3 \<in> selSet t" "row img K3 = minY t" "K4 \<in> selSet t" "row img K4 = maxY t"
    by (auto simp: fillInv_def)
  from fill_mask_attained [OF inv emp K(1)] K(2)
  obtain k1 where "k1 < bw * bh" "msk ! k1 \<noteq> 0" "int (k1 mod bw) = 0"
    unfolding bw_def bh_def msk_def by auto
  then show "\<exists>k<bw * bh. msk ! k \<noteq> 0 \<and> k mod bw = 0" by auto
  from fill_mask_attained [OF inv emp K(3)] K(4)
  obtain k2 where "k2 < bw * bh" "msk ! k2 \<noteq> 0" "int (k2 mod bw) = maxX t - minX t"
    unfolding bw_def bh_def msk_def by auto
  moreover from this(3) have "k2 mod bw = bw - 1" using b(2) unfolding bw_def by linarith
  ultimately show "\<exists>k<bw * bh. msk ! k \<noteq> 0 \<and> k mod bw = bw - 1" by auto
  from fill_mask_attained [OF inv emp K(5)] K(6)
  obtain k3 where "k3 < bw * bh" "msk ! k3 \<noteq> 0" "int (k3 div bw) = 0"
    unfolding bw_def bh_def msk_def by auto
  then show "\<exists>k<bw * bh. msk ! k \<noteq> 0 \<and> k div bw = 0" by auto
  from fill_mask_attained [OF inv emp K(7)] K(8)
  obtain k4 where "k4 < bw * bh" "msk ! k4 \<noteq> 0" "int (k4 div bw) = maxY t - minY t"
    unfolding bw_def bh_def msk_def by auto
  moreover from this(3) have "k4 div bw = bh - 1" using b(5) unfolding bh_def by linarith
  ultimately show "\<exists>k<bw * bh. msk ! k \<noteq> 0 \<and> k div bw = bh - 1" by auto
qed

lemma fill_regionMask:
  assumes n: "width img * height img \<le> 2 ^ 29"
    and inv: "fillInv img seed c sx sy t" and emp: "stack t = []"
    and rle: "maskRLE region =
        encodeMaskToRLE (boundsMask (selected t) (int (width img)) (minX t) (maxX t) (minY t) (maxY t))"
    and bw: "bounds_width (bounds region) = nat (maxX t - minX t + 1)"
    and bh: "bounds_height (bounds region) = nat (maxY t - minY t + 1)"
    and k: "k < nat (maxX t - minX t + 1) * nat (maxY t - minY t + 1)"
  shows "(regionMask region ! k \<noteq> 0) =
     (boundsMask (selected t) (int (width img)) (minX t) (maxX t) (minY t) (maxY t) ! k \<noteq> 0)"
proof -
  let ?msk = "boundsMask (selected t) (int (width img)) (minX t) (maxX t) (minY t) (maxY t)"
  note len = fill_mask_length [OF n inv emp]
  have "regionMask region = decodeMaskFromRLE (encodeMaskToRLE ?msk) (length ?msk)"
    unfolding regionMask_def rle bw bh len(1) ..
  also have "\<dots> = map (\<lambda>v. if v > 0 then 1 else 0) ?msk"
    using len(2) by (rule decode_encode)
  finally have "regionMask region ! k = (if ?msk ! k > 0 then 1 else 0)"
    using k len(1) by simp
  then show ?thesis by simp
qed


lemma fill_region_contained:
  assumes n: "width img * height img \<le> 2 ^ 29"
    and inv: "fillInv img seed c sx sy t" and emp: "stack t = []"
    and rle: "maskRLE region =
        encodeMaskToRLE (boundsMask (selected t) (int (width img)) (minX t) (maxX t) (minY t) (maxY t))"
    and bx: "bounds_x (bounds region) = minX t" and bnd_y: "bounds_y (bounds region) = minY t"
    and bw: "bounds_width (bounds region) = nat (maxX t - minX t + 1)"
    and bh: "bounds_height (bounds region) = nat (maxY t - minY t + 1)"
    and k: "k < bounds_width (bounds region) * bounds_height (bounds region)"
    and set: "regionMask region ! k \<noteq> 0"
  shows "0 \<le> bounds_x (bounds region) + int (k mod bounds_width (bounds region)) \<and>
            bounds_x (bounds region) + int (k mod bounds_width (bounds region)) < int (width img) \<and>
            0 \<le> bounds_y (bounds region) + int (k div bounds_width (bounds region)) \<and>
            bounds_y (bounds region) + int (k div bounds_width (bounds region)) < int (height img) \<and>
            withinTolerance
              (pixelAt img (bounds_x (bounds region) + int (k mod bounds_width (bounds region)))
                 (bounds_y (bounds region) + int (k div bounds_width (bounds region)))) seed c"
proof -
  let ?bw = "nat (maxX t - minX t + 1)" and ?bh = "nat (maxY t - minY t + 1)"
  let ?msk = "boundsMask (selected t) (int (width img)) (minX t) (maxX t) (minY t) (maxY t)"
  from k have k': "k < ?bw * ?bh" unfolding bw bh .
  from set have m: "?msk ! k \<noteq> 0"
    using fill_regionMask [OF n inv emp rle bw bh k'] by simp
  note f = fill_mask_contained [OF inv emp k' m]
  show ?thesis unfolding bx bnd_y bw by (intro conjI) (rule f)+
qed

lemma fill_region_tight:
  assumes n: "width img * height img \<le> 2 ^ 29"
    and inv: "fillInv img seed c sx sy t" and emp: "stack t = []"
    and rle: "maskRLE region =
        encodeMaskToRLE (boundsMask (selected t) (int (width img)) (minX t) (maxX t) (minY t) (maxY t))"
    and bw: "bounds_width (bounds region) = nat (maxX t - minX t + 1)"
    and bh: "bounds_height (bounds region) = nat (maxY t - minY t + 1)"
  shows "\<exists>k<bounds_width (bounds region) * bounds_height (bounds region).
           regionMask region ! k \<noteq> 0 \<and> k mod bounds_width (bounds region) = 0"
    and "\<exists>k<bounds_width (bounds region) * bounds_height (bounds region).
           regionMask region ! k \<noteq> 0 \<and>
           k mod bounds_width (bounds region) = bounds_width (bounds region) - 1"
    and "\<exists>k<bounds_width (bounds region) * bounds_height (bounds region).
           regionMask region ! k \<noteq> 0 \<and> k div bounds_width (bounds region) = 0"
    and "\<exists>k<bounds_width (bounds region) * bounds_height (bounds region).
           regionMask region ! k \<noteq> 0 \<and>
           k div bounds_width (bounds region) = bounds_height (bounds region) - 1"
proof -
  let ?bw = "nat (maxX t - minX t + 1)" and ?bh = "nat (maxY t - minY t + 1)"
  let ?msk = "boundsMask (selected t) (int (width img)) (minX t) (maxX t) (minY t) (maxY t)"
  have mk: "regionMask region ! k \<noteq> 0" if "k < ?bw * ?bh" "?msk ! k \<noteq> 0" for k
    using fill_regionMask [OF n inv emp rle bw bh that(1)] that(2) by simp
  note tight = fill_mask_tight [OF inv emp]
  from tight(1) obtain k1 where k1: "k1 < ?bw * ?bh" "?msk ! k1 \<noteq> 0" "k1 mod ?bw = 0"
    by (elim exE conjE)
  show "\<exists>k<bounds_width (bounds region) * bounds_height (bounds region).
           regionMask region ! k \<noteq> 0 \<and> k mod bounds_width (bounds region) = 0"
    unfolding bw bh using k1(1) mk [OF k1(1,2)] k1(3) by (intro exI [of _ k1] conjI)
  from tight(2) obtain k2 where k2: "k2 < ?bw * ?bh" "?msk ! k2 \<noteq> 0" "k2 mod ?bw = ?bw - 1"
    by (elim exE conjE)
  show "\<exists>k<bounds_width (bounds region) * bounds_height (bounds region).
           regionMask region ! k \<noteq> 0 \<and>
           k mod bounds_width (bounds region) = bounds_width (bounds region) - 1"
    unfolding bw bh using k2(1) mk [OF k2(1,2)] k2(3) by (intro exI [of _ k2] conjI)
  from tight(3) obtain k3 where k3: "k3 < ?bw * ?bh" "?msk ! k3 \<noteq> 0" "k3 div ?bw = 0"
    by (elim exE conjE)
  show "\<exists>k<bounds_width (bounds region) * bounds_height (bounds region).
           regionMask region ! k \<noteq> 0 \<and> k div bounds_width (bounds region) = 0"
    unfolding bw bh using k3(1) mk [OF k3(1,2)] k3(3) by (intro exI [of _ k3] conjI)
  from tight(4) obtain k4 where k4: "k4 < ?bw * ?bh" "?msk ! k4 \<noteq> 0" "k4 div ?bw = ?bh - 1"
    by (elim exE conjE)
  show "\<exists>k<bounds_width (bounds region) * bounds_height (bounds region).
           regionMask region ! k \<noteq> 0 \<and>
           k div bounds_width (bounds region) = bounds_height (bounds region) - 1"
    unfolding bw bh using k4(1) mk [OF k4(1,2)] k4(3) by (intro exI [of _ k4] conjI)
qed

text \<open>
  Claim C1. For a valid image of at most \<open>2 ^ 29\<close> pixels and a seed inside it, \<^verbatim>\<open>magicSelect\<close>
  returns a region. Every pixel set in its decoded mask, mapped from the bounding box
  back to absolute coordinates, lies inside the image and has a squared weighted colour
  distance to the seed pixel of at most \<open>(tolerance * 4.42)\<^sup>2\<close>. The first and last column
  and the first and last row of the bounding box each hold a set pixel, so the box is
  the tight bounding box of the selected pixels.
\<close>

theorem magicSelect_contained_and_tight:
  assumes v: "validImageData img" and n: "width img * height img \<le> 2 ^ 29"
    and sx: "0 \<le> startX" "startX < int (width img)"
    and sy: "0 \<le> startY" "startY < int (height img)"
  shows "\<exists>region. magicSelect img startX startY tolerance = Some region \<and>
     (let bx = bounds_x (bounds region); by = bounds_y (bounds region);
          bw = bounds_width (bounds region); bh = bounds_height (bounds region);
          msk = regionMask region
      in (\<forall>k<bw * bh. msk ! k \<noteq> 0 \<longrightarrow>
            0 \<le> bx + int (k mod bw) \<and> bx + int (k mod bw) < int (width img) \<and>
            0 \<le> by + int (k div bw) \<and> by + int (k div bw) < int (height img) \<and>
            withinTolerance (pixelAt img (bx + int (k mod bw)) (by + int (k div bw)))
              (pixelAt img startX startY) ((tolerance * 4.42) * (tolerance * 4.42))) \<and>
         (\<exists>k<bw * bh. msk ! k \<noteq> 0 \<and> k mod bw = 0) \<and>
         (\<exists>k<bw * bh. msk ! k \<noteq> 0 \<and> k mod bw = bw - 1) \<and>
         (\<exists>k<bw * bh. msk ! k \<noteq> 0 \<and> k div bw = 0) \<and>
         (\<exists>k<bw * bh. msk ! k \<noteq> 0 \<and> k div bw = bh - 1))"
proof -
  let ?w = "int (width img)" and ?N = "width img * height img"
  let ?c = "(tolerance * 4.42) * (tolerance * 4.42)"
  let ?seed = "pixelAt img startX startY"
  have c: "0 \<le> ?c" by simp
  note lb = lin_bounds [OF sx sy]
  have "int ?N \<le> int (2 ^ 29)" using n by (rule iffD2 [OF of_nat_le_iff])
  then have Nb: "int ?N \<le> 2 ^ 29" by simp
  have sh: "shl2 (startY * ?w + startX) = 4 * (startY * ?w + startX)"
    using lb(1,2) Nb by (intro shl2_small) auto
  from fillLoop_from_seed [OF v n sx sy c]
  obtain t where t: "fillLoop img ?seed ?c
       \<lparr>visited = wr (replicate ?N 0) (startY * ?w + startX) 1,
        selected = replicate ?N 0, stack = [(startX, startY)],
        minX = startX, maxX = startX, minY = startY, maxY = startY,
        totalR = Some 0, totalG = Some 0, totalB = Some 0, count = 0\<rparr> = Some t"
    and inv: "fillInv img ?seed ?c startX startY t" and emp: "stack t = []"
    by (elim exE conjE)
  let ?msk = "boundsMask (selected t) ?w (minX t) (maxX t) (minY t) (maxY t)"
  have seed_eq: "?seed =
       (channel (data img) (shl2 (startY * ?w + startX)),
        channel (data img) (shl2 (startY * ?w + startX) + 1),
        channel (data img) (shl2 (startY * ?w + startX) + 2))"
    by (simp add: pixelAt_def sh Let_def)
  define region where "region =
     \<lparr>maskRLE = encodeMaskToRLE ?msk,
      bounds = \<lparr>bounds_x = minX t, bounds_y = minY t,
                bounds_width = nat (maxX t - minX t + 1),
                bounds_height = nat (maxY t - minY t + 1)\<rparr>,
      pixelCount = count t,
      averageColor = (average (totalR t) (count t) (channel (data img) (shl2 (startY * ?w + startX))),
                      average (totalG t) (count t) (channel (data img) (shl2 (startY * ?w + startX) + 1)),
                      average (totalB t) (count t) (channel (data img) (shl2 (startY * ?w + startX) + 2))),
      regionMode = Remove\<rparr>"
  have res: "magicSelect img startX startY tolerance = Some region"
    unfolding region_def by (rule magicSelect_result [OF t [unfolded seed_eq]])
  have rle: "maskRLE region = encodeMaskToRLE ?msk" by (simp add: region_def)
  have b: "bounds_x (bounds region) = minX t" "bounds_y (bounds region) = minY t"
    "bounds_width (bounds region) = nat (maxX t - minX t + 1)"
    "bounds_height (bounds region) = nat (maxY t - minY t + 1)"
    by (simp_all add: region_def)
  note cont = fill_region_contained [OF n inv emp rle b]
  note tight = fill_region_tight [OF n inv emp rle b(3,4)]
  show ?thesis
    unfolding Let_def
  proof (intro exI [of _ region] conjI allI impI)
    show "magicSelect img startX startY tolerance = Some region" by (rule res)
  next
    fix k
    assume k: "k < bounds_width (bounds region) * bounds_height (bounds region)"
      and set: "regionMask region ! k \<noteq> 0"
    note f = cont [OF k set]
    show "0 \<le> bounds_x (bounds region) + int (k mod bounds_width (bounds region))"
      by (rule f [THEN conjunct1])
    show "bounds_x (bounds region) + int (k mod bounds_width (bounds region)) < int (width img)"
      by (rule f [THEN conjunct2, THEN conjunct1])
    show "0 \<le> bounds_y (bounds region) + int (k div bounds_width (bounds region))"
      by (rule f [THEN conjunct2, THEN conjunct2, THEN conjunct1])
    show "bounds_y (bounds region) + int (k div bounds_width (bounds region)) < int (height img)"
      by (rule f [THEN conjunct2, THEN conjunct2, THEN conjunct2, THEN conjunct1])
    show "withinTolerance
         (pixelAt img (bounds_x (bounds region) + int (k mod bounds_width (bounds region)))
            (bounds_y (bounds region) + int (k div bounds_width (bounds region)))) ?seed ?c"
      by (rule f [THEN conjunct2, THEN conjunct2, THEN conjunct2, THEN conjunct2])
  next
    show "\<exists>k<bounds_width (bounds region) * bounds_height (bounds region).
           regionMask region ! k \<noteq> 0 \<and> k mod bounds_width (bounds region) = 0"
      by (rule tight(1))
    show "\<exists>k<bounds_width (bounds region) * bounds_height (bounds region).
           regionMask region ! k \<noteq> 0 \<and>
           k mod bounds_width (bounds region) = bounds_width (bounds region) - 1"
      by (rule tight(2))
    show "\<exists>k<bounds_width (bounds region) * bounds_height (bounds region).
           regionMask region ! k \<noteq> 0 \<and> k div bounds_width (bounds region) = 0"
      by (rule tight(3))
    show "\<exists>k<bounds_width (bounds region) * bounds_height (bounds region).
           regionMask region ! k \<noteq> 0 \<and>
           k div bounds_width (bounds region) = bounds_height (bounds region) - 1"
      by (rule tight(4))
  qed
qed

section \<open>The flood fill on the scenario buffer\<close>

lemma replicate16: "replicate 16 x = [x, x, x, x, x, x, x, x, x, x, x, x, x, x, x, x]"
  by (simp add: numeral_eq_Suc)

lemmas fillEval = fillStep_def neighbours_def accept_def visit_def rd_def wr_def channel_def
  colorDistanceSquared_def numLe_def addNum_def shl2_def toInt32_def Let_def

lemma fill_whiteWithBlackPixel:
  "fillLoop whiteWithBlackPixel (Some 255, Some 255, Some 255) (10 * 4.42 * (10 * 4.42))
     \<lparr>visited = [1, 0, 0, 0, 0, 0, 0, 0, 0, 0, 0, 0, 0, 0, 0, 0],
      selected = [0, 0, 0, 0, 0, 0, 0, 0, 0, 0, 0, 0, 0, 0, 0, 0],
      stack = [(0, 0)], minX = 0, maxX = 0, minY = 0, maxY = 0,
      totalR = Some 0, totalG = Some 0, totalB = Some 0, count = 0\<rparr>
   = Some \<lparr>visited = [1, 1, 1, 1, 1, 1, 1, 1, 1, 1, 1, 1, 1, 1, 1, 1],
     selected = [1, 1, 1, 1, 1, 1, 1, 1, 1, 1, 0, 1, 1, 1, 1, 1],
     stack = [], minX = 0, maxX = 3, minY = 0, maxY = 3, totalR = Some 3825,
     totalG = Some 3825, totalB = Some 3825, count = 15\<rparr>"
  by (simp add: fillLoop.simps fillEval whiteWithBlackPixel_def cong: let_weak_cong)

lemma mask_whiteWithBlackPixel:
  "boundsMask [1, 1, 1, 1, 1, 1, 1, 1, 1, 1, 0, 1, 1, 1, 1, 1] 4 0 3 0 3
     = [1, 1, 1, 1, 1, 1, 1, 1, 1, 1, 0, 1, 1, 1, 1, 1]"
  by (simp add: boundsMask_def truthy_def rd_def wr_def replicate16 upto_rec1 Let_def cong: let_weak_cong)

lemma rle_whiteWithBlackPixel:
  "encodeMaskToRLE [1, 1, 1, 1, 1, 1, 1, 1, 1, 1, 0, 1, 1, 1, 1, 1] = [0, 10, 11, 5]"
  by (simp add: encodeMaskToRLE_def u32_def)


text \<open>
  Claim C9. On the 4 by 4 white buffer with one black pixel at \<open>(2, 2)\<close>, the selection
  seeded at \<open>(0, 0)\<close> with tolerance 10 has \<^verbatim>\<open>pixelCount\<close> 15 and bounds
  \<open>{x = 0, y = 0, width = 4, height = 4}\<close>; its runs \<open>(0, 10)\<close> and \<open>(11, 5)\<close> leave out index
  10, the black pixel.
\<close>

theorem magicSelect_whiteWithBlackPixel:
  "magicSelect whiteWithBlackPixel 0 0 10 =
     Some \<lparr>maskRLE = [0, 10, 11, 5],
            bounds = \<lparr>bounds_x = 0, bounds_y = 0, bounds_width = 4, bounds_height = 4\<rparr>,
            pixelCount = 15,
            averageColor = (Some 255, Some 255, Some 255),
            regionMode = Remove\<rparr>"
proof -
  have seed: "shl2 (0 * 4 + 0) = 0"
    by (simp add: shl2_def toInt32_def)
  have px: "channel (data whiteWithBlackPixel) 0 = Some 255"
    "channel (data whiteWithBlackPixel) (0 + 1) = Some 255"
    "channel (data whiteWithBlackPixel) (0 + 2) = Some 255"
    by (simp_all add: channel_def rd_def whiteWithBlackPixel_def)
  have wh: "width whiteWithBlackPixel * height whiteWithBlackPixel = 16"
    "int (width whiteWithBlackPixel) = 4"
    by (simp_all add: whiteWithBlackPixel_def)
  have v0: "wr [0, 0, 0, 0, 0, 0, 0, 0, 0, 0, 0, 0, 0, 0, 0, 0] (0 * 4 + 0) 1
      = [1, 0, 0, 0, 0, 0, 0, 0, 0, 0, 0, 0, 0, 0, 0, 0]"
    by (simp add: wr_def)
  have avg: "average (Some 3825) 15 (Some 255) = Some 255"
    by (simp add: average_def mathRound_def)
  note r = magicSelect_result [of whiteWithBlackPixel 0 0 10, unfolded wh replicate16,
      unfolded seed v0, unfolded px, OF fill_whiteWithBlackPixel]
  have n4: "nat (3 - 0 + 1) = 4" by simp
  show ?thesis
    unfolding r FillState.select_convs mask_whiteWithBlackPixel rle_whiteWithBlackPixel avg n4 ..
qed

theorem magicSelect_contained_and_tight_witness:
  "validImageData whiteWithBlackPixel \<and>
   width whiteWithBlackPixel * height whiteWithBlackPixel \<le> 2 ^ 29 \<and>
   (0::int) < int (width whiteWithBlackPixel) \<and> (0::int) < int (height whiteWithBlackPixel) \<and>
   (\<exists>region. magicSelect whiteWithBlackPixel 0 0 10 = Some region \<and>
     (let bx = bounds_x (bounds region); by = bounds_y (bounds region);
          bw = bounds_width (bounds region); bh = bounds_height (bounds region);
          msk = regionMask region
      in (\<forall>k<bw * bh. msk ! k \<noteq> 0 \<longrightarrow>
            0 \<le> bx + int (k mod bw) \<and> bx + int (k mod bw) < int (width whiteWithBlackPixel) \<and>
            0 \<le> by + int (k div bw) \<and> by + int (k div bw) < int (height whiteWithBlackPixel) \<and>
            withinTolerance (pixelAt whiteWithBlackPixel (bx + int (k mod bw)) (by + int (k div bw)))
              (pixelAt whiteWithBlackPixel 0 0) ((10 * 4.42) * (10 * 4.42))) \<and>
         (\<exists>k<bw * bh. msk ! k \<noteq> 0 \<and> k mod bw = 0) \<and>
         (\<exists>k<bw * bh. msk ! k \<noteq> 0 \<and> k mod bw = bw - 1) \<and>
         (\<exists>k<bw * bh. msk ! k \<noteq> 0 \<and> k div bw = 0) \<and>
         (\<exists>k<bw * bh. msk ! k \<noteq> 0 \<and> k div bw = bh - 1)))"
proof -
  have v: "validImageData whiteWithBlackPixel"
    by (simp add: validImageData_def whiteWithBlackPixel_def)
  have n: "width whiteWithBlackPixel * height whiteWithBlackPixel \<le> 2 ^ 29"
    by (simp add: whiteWithBlackPixel_def)
  have z: "(0::int) \<le> 0" by simp
  have w: "(0::int) < int (width whiteWithBlackPixel)"
    and h: "(0::int) < int (height whiteWithBlackPixel)"
    by (simp_all add: whiteWithBlackPixel_def)
  note r = magicSelect_contained_and_tight [OF v n z w z h, of 10]
  show ?thesis by (intro conjI v n w h r)
qed

section \<open>Properties of the processing job\<close>

lemma toInt32_mod4: "toInt32 v mod 4 = v mod 4"
proof -
  let ?a = "(v + 2 ^ 31) mod 2 ^ 32"
  have d: "(4::int) dvd 2 ^ 32" by simp
  have z: "(2::int) ^ 31 mod 4 = 0" by simp
  have "(?a - 2 ^ 31) mod 4 = (?a mod 4 - 2 ^ 31 mod 4) mod 4"
    by (rule mod_diff_eq [symmetric])
  also have "\<dots> = ?a mod 4" unfolding z by simp
  also have "\<dots> = (v + 2 ^ 31) mod 4" using d by (rule mod_mod_cancel)
  also have "\<dots> = (v mod 4 + 2 ^ 31 mod 4) mod 4" by (rule mod_add_eq [symmetric])
  also have "\<dots> = v mod 4" unfolding z by simp
  finally show ?thesis unfolding toInt32_def .
qed

lemma shl2_mod4: "shl2 v mod 4 = 0"
  unfolding shl2_def by (simp add: toInt32_mod4)

lemma alpha_index: "(shl2 v + 3) mod 4 = 3"
proof -
  have "(shl2 v + 3) mod 4 = (shl2 v mod 4 + 3) mod 4" by (simp add: mod_add_left_eq)
  then show ?thesis by (simp add: shl2_mod4)
qed

lemma alphaWrites_refl: "alphaWrites V d d"
  by (simp add: alphaWrites_def)

lemma alphaWrites_wr:
  assumes a: "alphaWrites V d0 d" and k: "k mod 4 = 3" and v: "v \<in> V"
  shows "alphaWrites V d0 (wr d k v)"
proof (cases "0 \<le> k \<and> k < int (length d)")
  case False
  then have "wr d k v = d" by (auto simp: wr_def)
  then show ?thesis using a by simp
next
  case True
  then have e: "wr d k v = d[nat k := v]" by (simp add: wr_def)
  have km: "nat k mod 4 = 3"
  proof -
    have "int (nat k mod 4) = k mod 4" using True by (simp add: zmod_int)
    then show ?thesis using k by linarith
  qed
  show ?thesis
    unfolding e alphaWrites_def
  proof (intro conjI allI impI)
    show "length (d[nat k := v]) = length d0" using a by (simp add: alphaWrites_def)
    fix j assume j: "j < length d0"
    show "d[nat k := v] ! j = d0 ! j \<or> (j mod 4 = 3 \<and> d[nat k := v] ! j \<in> V)"
    proof (cases "j = nat k")
      case True
      then show ?thesis using km v j a by (simp add: alphaWrites_def)
    next
      case False
      then show ?thesis using a j by (simp add: alphaWrites_def)
    qed
  qed
qed

lemma clampUint8_values [simp]: "clampUint8 0 = 0" "clampUint8 255 = 255"
  by (simp_all add: clampUint8_def)

lemma writeMatch_alphaWrites:
  assumes a: "alphaWrites V d0 (fst st)"
    and okH: "edgeMode settings = Hard \<longrightarrow> 0 \<in> V"
    and okF: "edgeMode settings \<noteq> Hard \<longrightarrow> V = UNIV"
  shows "alphaWrites V d0 (fst (writeMatch settings distSq tol i (shl2 (int i)) st))"
proof -
  obtain d am where st: "st = (d, am)" by (cases st)
  from a st have ad: "alphaWrites V d0 d" by simp
  show ?thesis
  proof (cases "useAdvancedEdge settings \<and> am \<noteq> None")
    case True
    then obtain m where "am = Some m" by auto
    with True show ?thesis using ad by (simp add: writeMatch_def st Let_def)
  next
    case False
    show ?thesis
    proof (cases "edgeMode settings = Hard")
      case True
      then have "fst (writeMatch settings distSq tol i (shl2 (int i)) st)
          = wr d (shl2 (int i) + 3) 0"
        using False by (auto simp: writeMatch_def st split: bool.splits option.splits)
      then show ?thesis using alphaWrites_wr [OF ad alpha_index, of 0 "int i"] okH True by simp
    next
      case notHard: False
      then have "fst (writeMatch settings distSq tol i (shl2 (int i)) st)
          = wr d (shl2 (int i) + 3)
              (clampUint8 (gaussianFalloff (sqrt (real_of_int distSq)) (tol * 0.7)
                 (real_of_int (featherRadius settings))))"
        using False by (auto simp: writeMatch_def st Let_def split: bool.splits option.splits)
      moreover have "clampUint8 (gaussianFalloff (sqrt (real_of_int distSq)) (tol * 0.7)
                 (real_of_int (featherRadius settings))) \<in> V"
        using okF notHard by simp
      ultimately show ?thesis using alphaWrites_wr [OF ad alpha_index] by simp
    qed
  qed
qed

lemma pickerLoop_alphaWrites:
  assumes a: "alphaWrites V d0 (fst st)"
    and okH: "edgeMode settings = Hard \<longrightarrow> 0 \<in> V"
    and okF: "edgeMode settings \<noteq> Hard \<longrightarrow> V = UNIV"
  shows "alphaWrites V d0 (fst (pickerLoop settings px i (shl2 (int i)) colors st))"
proof (induction colors)
  case Nil
  then show ?case using a by simp
next
  case (Cons sel rest)
  show ?case
    using Cons.IH writeMatch_alphaWrites [OF a okH okF]
    by (simp split: option.splits)
qed

lemma classifyPixel_alphaWrites:
  assumes a: "alphaWrites V d0 (fst st)"
    and okH: "edgeMode settings = Hard \<longrightarrow> 0 \<in> V"
    and okF: "edgeMode settings \<noteq> Hard \<longrightarrow> V = UNIV"
  shows "alphaWrites V d0 (fst (classifyPixel settings dominantColor i st))"
  unfolding classifyPixel_def Let_def
  using a pickerLoop_alphaWrites [OF a okH okF] writeMatch_alphaWrites [OF a okH okF]
  by (simp split: option.splits)

lemma chunk_alphaWrites:
  assumes okH: "edgeMode settings = Hard \<longrightarrow> 0 \<in> V"
    and okF: "edgeMode settings \<noteq> Hard \<longrightarrow> V = UNIV"
  shows "alphaWrites V d0 (fst st) \<Longrightarrow>
         alphaWrites V d0 (fst (fold (classifyPixel settings dominantColor) is st))"
proof (induction "is" arbitrary: st)
  case Nil
  then show ?case by simp
next
  case (Cons i "is")
  show ?case
    using Cons.IH [OF classifyPixel_alphaWrites [OF Cons.prems okH okF]] by simp
qed

lemma phase1_alphaWrites:
  "alphaWrites V d0 (fst st) \<Longrightarrow>
   phase1 c settings dc n chunkStart yields lastP st out = (out', Some (st', y')) \<Longrightarrow>
   edgeMode settings = Hard \<longrightarrow> 0 \<in> V \<Longrightarrow>
   edgeMode settings \<noteq> Hard \<longrightarrow> V = UNIV \<Longrightarrow>
   alphaWrites V d0 (fst st')"
proof (induction c settings dc n chunkStart yields lastP st out rule: phase1.induct)
  case (1 c settings dc n chunkStart yields lastP st out)
  let ?chunkEnd = "min (chunkStart + chunkSize) n"
  let ?st = "fold (classifyPixel settings dc) [chunkStart..<?chunkEnd] st"
  let ?progress = "if useAdvancedEdge settings
                   then mathRound ((real ?chunkEnd / real n) * 50)
                   else mathRound ((real ?chunkEnd / real n) * 100)"
  show ?case
  proof (cases "chunkStart < n")
    case False
    with "1.prems" show ?thesis by (simp add: phase1.simps)
  next
    case True
    have nc: "\<not> isCancelled c yields"
      using "1.prems"(2) True by (auto simp: phase1.simps [of c settings dc n chunkStart])
    note okH = "1.prems"(3) and okF = "1.prems"(4)
    have a: "alphaWrites V d0 (fst ?st)"
      using "1.prems"(1) by (rule chunk_alphaWrites [OF okH okF])
    show ?thesis
    proof (cases "?progress \<ge> lastP + 10")
      case big: True
      have "phase1 c settings dc n (chunkStart + chunkSize) (yields + 1) ?progress ?st
              (out @ [Progress ?progress]) = (out', Some (st', y'))"
        using "1.prems"(2) True nc big
        by (simp add: phase1.simps [of c settings dc n chunkStart] Let_def)
      with "1.IH"(1) [OF True nc refl refl refl refl big a] "1.prems"(3,4) show ?thesis by simp
    next
      case small: False
      have "phase1 c settings dc n (chunkStart + chunkSize) (yields + 1) lastP ?st out
              = (out', Some (st', y'))"
        using "1.prems"(2) True nc small
        by (simp add: phase1.simps [of c settings dc n chunkStart] Let_def)
      with "1.IH"(2) [OF True nc refl refl refl refl small a] "1.prems"(3,4) show ?thesis by simp
    qed
  qed
qed

lemma phase1_posts:
  "phase1 c settings dc n chunkStart yields lastP st out = (out', r) \<Longrightarrow>
   Complete x \<in> set out' \<Longrightarrow> Complete x \<in> set out"
proof (induction c settings dc n chunkStart yields lastP st out rule: phase1.induct)
  case (1 c settings dc n chunkStart yields lastP st out)
  let ?chunkEnd = "min (chunkStart + chunkSize) n"
  let ?st = "fold (classifyPixel settings dc) [chunkStart..<?chunkEnd] st"
  let ?progress = "if useAdvancedEdge settings
                   then mathRound ((real ?chunkEnd / real n) * 50)
                   else mathRound ((real ?chunkEnd / real n) * 100)"
  show ?case
  proof (cases "chunkStart < n")
    case False
    with "1.prems" show ?thesis by (simp add: phase1.simps)
  next
    case True
    show ?thesis
    proof (cases "isCancelled c yields")
      case cancelled: True
      with "1.prems" True show ?thesis
        by (auto simp: phase1.simps [of c settings dc n chunkStart])
    next
      case nc: False
      show ?thesis
      proof (cases "?progress \<ge> lastP + 10")
        case big: True
        have "phase1 c settings dc n (chunkStart + chunkSize) (yields + 1) ?progress ?st
                (out @ [Progress ?progress]) = (out', r)"
          using "1.prems"(1) True nc big
          by (simp add: phase1.simps [of c settings dc n chunkStart] Let_def)
        from "1.IH"(1) [OF True nc refl refl refl refl big this "1.prems"(2)]
        show ?thesis by simp
      next
        case small: False
        have "phase1 c settings dc n (chunkStart + chunkSize) (yields + 1) lastP ?st out
                = (out', r)"
          using "1.prems"(1) True nc small
          by (simp add: phase1.simps [of c settings dc n chunkStart] Let_def)
        from "1.IH"(2) [OF True nc refl refl refl refl small this "1.prems"(2)]
        show ?thesis by simp
      qed
    qed
  qed
qed

lemma applyMask_alphaWrites:
  assumes "alphaWrites UNIV d0 d"
  shows "alphaWrites UNIV d0 (applyMask d processedMask n)"
proof -
  have "alphaWrites UNIV d0 d \<Longrightarrow>
        alphaWrites UNIV d0 (fold (\<lambda>i d. wr d (shl2 (int i) + 3) (clampUint8 (int (processedMask ! i)))) is d)"
    for "is" d
  proof (induction "is" arbitrary: d)
    case Nil
    then show ?case by simp
  next
    case (Cons i "is")
    have "alphaWrites UNIV d0 (wr d (shl2 (int i) + 3) (clampUint8 (int (processedMask ! i))))"
      using Cons.prems alpha_index by (rule alphaWrites_wr) simp
    from Cons.IH [OF this] show ?case by simp
  qed
  from this [OF assms] show ?thesis unfolding applyMask_def .
qed

lemma fold_stamp_alphaWrites:
  assumes val: "val \<in> V"
  shows "alphaWrites V d0 d \<Longrightarrow>
      alphaWrites V d0 (fold (\<lambda>x d. if P x then wr d (shl2 (f x) + 3) val else d) xs d)"
proof (induction xs arbitrary: d)
  case Nil
  then show ?case by simp
next
  case (Cons x xs)
  have "alphaWrites V d0 (if P x then wr d (shl2 (f x) + 3) val else d)"
    using alphaWrites_wr [OF Cons.prems alpha_index val] Cons.prems by simp
  from Cons.IH [OF this] show ?case by simp
qed

lemma fold_fold_stamp_alphaWrites:
  assumes val: "val \<in> V"
  shows "alphaWrites V d0 d \<Longrightarrow>
      alphaWrites V d0 (fold (\<lambda>y d. fold (\<lambda>x d. if P y x
          then wr d (shl2 (f y x) + 3) val else d) xs d) ys d)"
proof (induction ys arbitrary: d)
  case Nil
  then show ?case by simp
next
  case (Cons y ys)
  from Cons.IH [OF fold_stamp_alphaWrites [OF val Cons.prems]] show ?case by simp
qed

lemma applyRegion_alphaWrites:
  assumes a: "alphaWrites V d0 d" and v: "0 \<in> V" "255 \<in> V"
  shows "alphaWrites V d0 (applyRegion w d region)"
proof -
  have av: "clampUint8 (if regionMode region = Keep then 255 else 0) \<in> V" using v by simp
  show ?thesis
    unfolding applyRegion_def Let_def by (rule fold_fold_stamp_alphaWrites [OF av a])
qed

lemma applyRegions_alphaWrites:
  assumes v: "0 \<in> V" "255 \<in> V"
  shows "alphaWrites V d0 d \<Longrightarrow> alphaWrites V d0 (applyRegions w regions d)"
  unfolding applyRegions_def
proof (induction regions arbitrary: d)
  case Nil
  then show ?case by simp
next
  case (Cons r rs)
  from Cons.IH [OF applyRegion_alphaWrites [OF Cons.prems v]] show ?case by simp
qed

lemma processImage_alphaWrites:
  assumes nd: "edgeMode settings \<noteq> Decontaminate" and v: "0 \<in> V" "255 \<in> V"
    and okF: "edgeMode settings \<noteq> Hard \<longrightarrow> V = UNIV"
    and c: "Complete result \<in> set (processImage cancelAfter img settings)"
  shows "alphaWrites V (data img) (data result) \<and>
         width result = width img \<and> height result = height img"
proof -
  let ?n = "width img * height img"
  define dc where "dc = (if mode settings = Auto \<or> mode settings = Manual
      then detectDominantColor img else (Some 255, Some 255, Some 255))"
  define am0 :: "nat list option"
    where "am0 = (if useAdvancedEdge settings then Some (replicate ?n 255) else None)"
  obtain out1 r where p: "phase1 cancelAfter settings dc ?n 0 0 0 (data img, am0) [] = (out1, r)"
    by (cases "phase1 cancelAfter settings dc ?n 0 0 0 (data img, am0) []") auto
  have noC: "Complete x \<notin> set out1" for x
    using phase1_posts [OF p, of x] by auto
  have okH: "edgeMode settings = Hard \<longrightarrow> 0 \<in> V" using v by simp
  show ?thesis
  proof (cases r)
    case None
    then have "processImage cancelAfter img settings = out1"
      using p by (simp add: processImage_def Let_def dc_def am0_def)
    with c noC show ?thesis by simp
  next
    case (Some sy)
    obtain d am y where sy: "sy = ((d, am), y)" by (cases sy) auto
    have ad: "alphaWrites V (data img) d"
      using phase1_alphaWrites [OF _ p [unfolded Some sy] okH okF, of "data img"]
      by (simp add: alphaWrites_refl)
    note stamp = applyRegions_alphaWrites [OF v, of "data img" _ "width img" "appliedRegions settings"]
    show ?thesis
    proof (cases "useAdvancedEdge settings \<and> am \<noteq> None")
      case False
      then have "processImage cancelAfter img settings =
          out1 @ [Complete (img\<lparr>data := applyRegions (width img) (appliedRegions settings) d\<rparr>)]"
        using p Some sy
        by (auto simp: processImage_def Let_def dc_def am0_def split: bool.splits option.splits)
      with c noC have "result = img\<lparr>data := applyRegions (width img) (appliedRegions settings) d\<rparr>"
        by simp
      then show ?thesis using stamp [OF ad] by simp
    next
      case True
      then obtain m where m: "am = Some m" and adv: "useAdvancedEdge settings" by auto
      from adv have "edgeMode settings \<noteq> Hard" by (auto simp: useAdvancedEdge_def)
      with okF have V: "V = UNIV" by simp
      define pm where "pm = (case edgeMode settings of
            Smooth \<Rightarrow> smoothEdges m (width img) (height img) (featherRadius settings)
          | Refine \<Rightarrow> refineEdges m (width img) (height img) (featherRadius settings)
          | Decontaminate \<Rightarrow>
              smoothEdges m (width img) (height img) (max 1 (featherRadius settings div 2))
          | _ \<Rightarrow> m)"
      show ?thesis
      proof (cases "isCancelled cancelAfter y")
        case True
        then have "processImage cancelAfter img settings = out1 @ [Cancelled]"
          using p Some sy m adv by (simp add: processImage_def Let_def dc_def am0_def)
        with c noC show ?thesis by simp
      next
        case False
        then have "processImage cancelAfter img settings =
            out1 @ [Progress 60, Progress 80, Progress 95,
              Complete (img\<lparr>data := applyRegions (width img) (appliedRegions settings)
                 (applyMask d pm ?n)\<rparr>)]"
          using p Some sy m adv nd
          by (simp add: processImage_def Let_def dc_def am0_def pm_def)
        with c noC have "result = img\<lparr>data := applyRegions (width img) (appliedRegions settings)
                 (applyMask d pm ?n)\<rparr>"
          by simp
        moreover have "alphaWrites V (data img) (applyMask d pm ?n)"
          using ad unfolding V by (rule applyMask_alphaWrites)
        ultimately show ?thesis using stamp by simp
      qed
    qed
  qed
qed

subsection \<open>The frame of the job\<close>

text \<open>
  Claim C10. With an edge mode other than decontaminate, the buffer of every
  \<^verbatim>\<open>complete\<close> response has the length of the submitted buffer, and every byte that is not
  an alpha byte (index not congruent to 3 modulo 4, the R, G and B bytes of each pixel)
  has its submitted value: only alpha bytes are modified. This holds for every mode, every
  list of applied regions and every time of cancellation.
\<close>

theorem processImage_keeps_colours:
  assumes "edgeMode settings \<noteq> Decontaminate"
    and "Complete result \<in> set (processImage cancelAfter img settings)"
  shows "length (data result) = length (data img) \<and>
         (\<forall>j<length (data img). j mod 4 \<noteq> 3 \<longrightarrow> data result ! j = data img ! j)"
  using processImage_alphaWrites [OF assms(1) _ _ _ assms(2), of UNIV]
  by (auto simp: alphaWrites_def)

text \<open>
  Claim C6. With hard edges the job writes only 0 (a matching pixel, a region to remove)
  or 255 (a region to keep) into alpha bytes, and a pixel that nothing matches keeps the
  alpha it came with. So every alpha byte of the output is 0, 255 or the submitted alpha
  of that pixel; the output alphas are all in \<open>{0, 255}\<close> when the submitted ones are.
\<close>

theorem processImage_hard_alpha:
  assumes "edgeMode settings = Hard"
    and "Complete result \<in> set (processImage cancelAfter img settings)"
  shows "length (data result) = length (data img) \<and>
         (\<forall>j<length (data img). j mod 4 = 3 \<longrightarrow>
            data result ! j = 0 \<or> data result ! j = 255 \<or> data result ! j = data img ! j) \<and>
         ((\<forall>j<length (data img). j mod 4 = 3 \<longrightarrow> data img ! j = 0 \<or> data img ! j = 255) \<longrightarrow>
          (\<forall>j<length (data img). j mod 4 = 3 \<longrightarrow> data result ! j = 0 \<or> data result ! j = 255))"
proof -
  have nd: "edgeMode settings \<noteq> Decontaminate" using assms(1) by simp
  have okF: "edgeMode settings \<noteq> Hard \<longrightarrow> {0, 255} = (UNIV :: nat set)" using assms(1) by simp
  have "alphaWrites {0, 255} (data img) (data result)"
    using processImage_alphaWrites [OF nd _ _ okF assms(2)] by simp
  then have l: "length (data result) = length (data img)"
    and a: "\<And>j. j < length (data img) \<Longrightarrow>
              data result ! j = data img ! j \<or> data result ! j = 0 \<or> data result ! j = 255"
    by (auto simp: alphaWrites_def)
  show ?thesis
  proof (intro conjI allI impI)
    show "length (data result) = length (data img)" by (rule l)
  next
    fix j assume "j < length (data img)" "j mod 4 = 3"
    then show "data result ! j = 0 \<or> data result ! j = 255 \<or> data result ! j = data img ! j"
      using a [of j] by auto
  next
    fix j
    assume "\<forall>j<length (data img). j mod 4 = 3 \<longrightarrow> data img ! j = 0 \<or> data img ! j = 255"
      and "j < length (data img)" "j mod 4 = 3"
    then show "data result ! j = 0 \<or> data result ! j = 255" using a [of j] by auto
  qed
qed

subsection \<open>The automatic threshold\<close>

text \<open>
  Claim C3. The threshold returned by \<^verbatim>\<open>calculateAutoThreshold\<close> lies in the closed interval
  from 20 to 150, for every image buffer.
\<close>

theorem calculateAutoThreshold_bounds:
  "20 \<le> fst (calculateAutoThreshold img) \<and> fst (calculateAutoThreshold img) \<le> 150"
  by (simp add: calculateAutoThreshold_def Let_def)

subsection \<open>Monotonicity in the threshold\<close>

lemma length_filter_mono:
  "(\<And>x. x \<in> set xs \<Longrightarrow> P x \<Longrightarrow> Q x) \<Longrightarrow> length (filter P xs) \<le> length (filter Q xs)"
  by (induction xs) auto

lemma thresholdSquared_manual:
  "mode settings = Manual \<Longrightarrow> thresholdSquared (settings\<lparr>threshold := t\<rparr>) = t * t"
  by (simp add: thresholdSquared_def effectiveThreshold_def)

lemma isBackground_mono:
  assumes "mode settings = Manual" "0 \<le> t1" "t1 \<le> t2"
    and "isBackground img (settings\<lparr>threshold := t1\<rparr>) i"
  shows "isBackground img (settings\<lparr>threshold := t2\<rparr>) i"
proof -
  have "t1 * t1 \<le> t2 * t2" using assms(2,3) by (intro mult_mono) auto
  then show ?thesis
    using assms(4)
    by (auto simp: isBackground_def thresholdSquared_manual [OF assms(1)] numLt_def Let_def
        split: option.splits)
qed

lemma channel_alphaWrites:
  assumes "alphaWrites V d0 d" "idx mod 4 \<noteq> 3"
  shows "channel d idx = channel d0 idx"
proof (cases "0 \<le> idx \<and> idx < int (length d0)")
  case True
  then have "nat idx < length d0" by linarith
  moreover have "nat idx mod 4 \<noteq> 3"
  proof -
    have "int (nat idx mod 4) = idx mod 4" using True by (simp add: zmod_int)
    then show ?thesis using assms(2) by linarith
  qed
  ultimately have "d ! nat idx = d0 ! nat idx"
    using assms(1) by (auto simp: alphaWrites_def)
  then show ?thesis using assms(1) True by (simp add: channel_def rd_def alphaWrites_def)
next
  case False
  then show ?thesis using assms(1) by (auto simp: channel_def rd_def alphaWrites_def)
qed

lemma sampleAt_alphaWrites:
  assumes "alphaWrites V d0 d"
  shows "sampleAt d (shl2 v) = sampleAt d0 (shl2 v)"
proof -
  have m: "shl2 v mod 4 = 0" by (rule shl2_mod4)
  have "shl2 v mod 4 \<noteq> 3" "(shl2 v + 1) mod 4 \<noteq> 3" "(shl2 v + 2) mod 4 \<noteq> 3"
    using m by presburger+
  then show ?thesis
    by (simp add: sampleAt_def channel_alphaWrites [OF assms])
qed

lemma classifyPixel_isBackground:
  assumes "mode settings \<noteq> ColorPicker" "alphaWrites V (data img) (fst st)"
  shows "classifyPixel settings (detectDominantColor img) i st =
     (if isBackground img settings i
      then (let px = sampleAt (data img) (shl2 (int i));
                dominantColor = detectDominantColor img
            in writeMatch settings
                 (the (colorDistanceSquared (fst px) (fst (snd px)) (snd (snd px))
                    (fst dominantColor) (fst (snd dominantColor)) (snd (snd dominantColor))))
                 (effectiveThreshold settings) i (shl2 (int i)) st)
      else st)"
  using assms(1)
  by (simp add: classifyPixel_def isBackground_def sampleAt_alphaWrites [OF assms(2)] numLt_def
      Let_def split: option.splits)

text \<open>
  Claim C7. For a fixed buffer and manual-mode settings that differ only in the threshold,
  with \<open>0 \<le> t1 \<le> t2\<close> (the threshold is a distance, its slider starts at 0), the number of
  pixels classified as background under \<open>t1\<close> is at most the number under \<open>t2\<close>. By
  \<open>classifyPixel_isBackground\<close> the pixels counted are those on which the pixel loop takes
  its matching branch.
\<close>

theorem backgroundCount_mono:
  assumes "mode settings = Manual" "0 \<le> t1" "t1 \<le> t2"
  shows "backgroundCount img (settings\<lparr>threshold := t1\<rparr>)
           \<le> backgroundCount img (settings\<lparr>threshold := t2\<rparr>)"
  unfolding backgroundCount_def
  by (rule length_filter_mono) (rule isBackground_mono [OF assms])

subsection \<open>A job of a single chunk\<close>

text \<open>
  A job on at most \<open>chunkSize\<close> pixels with hard or feathered edges reads the flag once,
  before its only chunk and so before its only yield. Whatever \<open>cancelAfter\<close> is, it posts
  the progress 100 and the finished buffer.
\<close>

lemma phase1_single_chunk:
  assumes "0 < n" "n \<le> chunkSize" "\<not> useAdvancedEdge settings"
  shows "phase1 cancelAfter settings dc n 0 0 0 st [] =
           ([Progress 100], Some (fold (classifyPixel settings dc) [0..<n] st, 1))"
proof -
  have p: "mathRound 100 = 100"
    by (simp add: mathRound_def)
  have nc: "\<not> isCancelled cancelAfter 0"
    by (simp add: isCancelled_def split: option.split)
  have e: "phase1 cancelAfter settings dc n chunkSize (Suc 0) 100 s [Progress 100]
             = ([Progress 100], Some (s, 1))" for s
    by (subst phase1.simps) (use assms(2) in simp)
  show ?thesis
    by (subst phase1.simps) (use assms nc in \<open>simp add: p e min_absorb2 Let_def\<close>)
qed

lemma basic_job_single_chunk:
  assumes "0 < width img * height img" "width img * height img \<le> chunkSize"
    and "\<not> useAdvancedEdge settings"
  shows "processImage cancelAfter img settings =
     [Progress 100,
      Complete (img\<lparr>data := applyRegions (width img) (appliedRegions settings)
        (fst (fold (classifyPixel settings
                (if mode settings = Auto \<or> mode settings = Manual then detectDominantColor img
                 else (Some 255, Some 255, Some 255)))
              [0..<width img * height img] (data img, None)))\<rparr>)]"
proof -
  note ph = phase1_single_chunk [OF assms, of cancelAfter]
  show ?thesis
    unfolding processImage_def Let_def ph
    using assms(3) by (simp split: prod.split)
qed

subsection \<open>Magic selection with any seed\<close>

lemma channel_outside:
  assumes v: "validImageData img" and n: "width img * height img \<le> 2 ^ 29"
    and lo: "- (2 ^ 29) \<le> L" and hi: "L < 2 ^ 30"
    and out: "L < 0 \<or> int (width img * height img) \<le> L"
    and k: "0 \<le> k" "k < 4"
  shows "channel (data img) (shl2 L + k) = None"
proof -
  have "int (width img * height img) \<le> int (2 ^ 29)" using n by (rule iffD2 [OF of_nat_le_iff])
  then have Nb: "int (width img * height img) \<le> 2 ^ 29" by simp
  have len: "int (length (data img)) = 4 * int (width img * height img)"
    using v by (simp add: validImageData_def)
  have nb: "\<not> (0 \<le> shl2 L \<and> shl2 L < 4 * int (width img * height img))"
    using shl2_in_buffer [OF lo hi Nb] out by auto
  have m: "shl2 L mod 4 = 0" by (rule shl2_mod4)
  have "\<not> (0 \<le> shl2 L + k \<and> shl2 L + k < int (length (data img)))"
    unfolding len using nb m k by presburger
  then show ?thesis by (simp add: channel_def rd_def)
qed

lemma fillLoop_seed_outside:
  assumes "numLe (colorDistanceSquared
                 (channel (data img) (shl2 (y * int (width img) + x)))
                 (channel (data img) (shl2 (y * int (width img) + x) + 1))
                 (channel (data img) (shl2 (y * int (width img) + x) + 2)) seedR seedG seedB) c = False"
    and "stack s = [(x, y)]"
  shows "fillLoop img (seedR, seedG, seedB) c s = Some (s\<lparr>stack := []\<rparr>)"
proof -
  have st: "fillStep img (seedR, seedG, seedB) c s = s\<lparr>stack := []\<rparr>"
    unfolding fillStep_Cons [OF assms(2)] using assms(1) by simp
  have "fillLoop img (seedR, seedG, seedB) c s
          = fillLoop img (seedR, seedG, seedB) c (s\<lparr>stack := []\<rparr>)"
    by (subst fillLoop.simps) (simp add: assms(2) st)
  also have "\<dots> = Some (s\<lparr>stack := []\<rparr>)"
    by (subst fillLoop.simps) simp
  finally show ?thesis .
qed

lemma boundsMask_single:
  "rd sel (y * w + x) = None \<Longrightarrow> boundsMask sel w x x y y = [0]"
  by (simp add: boundsMask_def truthy_def Let_def)

lemma encodeMaskToRLE_zero: "encodeMaskToRLE [0] = []"
  by (simp add: encodeMaskToRLE_def)

lemma magicSelect_seed_index_outside:
  assumes v: "validImageData img" and n: "width img * height img \<le> 2 ^ 29"
    and lo: "- (2 ^ 29) \<le> y * int (width img) + x"
    and hi: "y * int (width img) + x < 2 ^ 30"
    and out: "y * int (width img) + x < 0 \<or> int (width img * height img) \<le> y * int (width img) + x"
  shows "magicSelect img x y tol =
     Some \<lparr>maskRLE = [],
            bounds = \<lparr>bounds_x = x, bounds_y = y, bounds_width = 1, bounds_height = 1\<rparr>,
            pixelCount = 0,
            averageColor = (None, None, None),
            regionMode = Remove\<rparr>"
proof -
  let ?L = "y * int (width img) + x"
  note co = channel_outside [OF v n lo hi out]
  have c0: "channel (data img) (shl2 ?L) = None" using co [of 0] by simp
  have c1: "channel (data img) (shl2 ?L + 1) = None" using co [of 1] by simp
  have c2: "channel (data img) (shl2 ?L + 2) = None" using co [of 2] by simp
  define s0 where "s0 = \<lparr>visited = wr (replicate (width img * height img) 0) ?L 1,
                selected = replicate (width img * height img) 0,
                stack = [(x, y)],
                minX = x, maxX = x, minY = y, maxY = y,
                totalR = Some 0, totalG = Some 0, totalB = Some 0, count = 0\<rparr>"
  have nl: "numLe (colorDistanceSquared
                 (channel (data img) (shl2 ?L))
                 (channel (data img) (shl2 ?L + 1))
                 (channel (data img) (shl2 ?L + 2)) None None None) (tol * 4.42 * (tol * 4.42)) = False"
    by (simp add: c0 colorDistanceSquared_def numLe_def)
  have st: "stack s0 = [(x, y)]" by (simp add: s0_def)
  have f: "fillLoop img (None, None, None) (tol * 4.42 * (tol * 4.42)) s0 = Some (s0\<lparr>stack := []\<rparr>)"
    by (rule fillLoop_seed_outside [OF nl st])
  have r: "rd (replicate (width img * height img) 0) ?L = None"
    using out by (auto simp: rd_def)
  show ?thesis
    unfolding magicSelect_def Let_def c0 c1 c2
    using f r
    by (simp add: s0_def boundsMask_single encodeMaskToRLE_zero average_def)
qed

text \<open>
  Claim C4. \<^verbatim>\<open>magicSelect\<close> does not check the seed against the buffer and nothing in it
  throws, so the handler answers a magic selection with exactly one
  \<^verbatim>\<open>magicSelectResult\<close> and no \<^verbatim>\<open>error\<close>, wherever the seed lies: for every valid buffer of at
  most \<open>2^29\<close> pixels and every seed whose flattened index \<open>y * width + x\<close> is in the range
  where \<^verbatim>\<open><< 2\<close> does not wrap back into the buffer. If that index is outside the buffer,
  the result is the empty region at the seed: no runs, no pixels, the bounds
  \<open>{x, y, 1, 1}\<close> and an average colour of undefined channels. A valid buffer has
  positive width and height.
\<close>

theorem magicSelect_never_reports_error:
  assumes v: "validImageData img" and n: "width img * height img \<le> 2 ^ 29"
    and lo: "- (2 ^ 29) \<le> y * int (width img) + x"
    and hi: "y * int (width img) + x < 2 ^ 30"
  shows "(\<exists>region. onmessage cancelAfter (MagicSelect img x y tol) = Some [MagicSelectResult region]) \<and>
         (y * int (width img) + x < 0 \<or> int (width img * height img) \<le> y * int (width img) + x \<longrightarrow>
          onmessage cancelAfter (MagicSelect img x y tol) =
            Some [MagicSelectResult
                    \<lparr>maskRLE = [],
                     bounds = \<lparr>bounds_x = x, bounds_y = y, bounds_width = 1, bounds_height = 1\<rparr>,
                     pixelCount = 0,
                     averageColor = (None, None, None),
                     regionMode = Remove\<rparr>])"
proof (intro conjI impI)
  define seed where "seed = (channel (data img) (shl2 (y * int (width img) + x)),
     channel (data img) (shl2 (y * int (width img) + x) + 1),
     channel (data img) (shl2 (y * int (width img) + x) + 2))"
  define s0 where "s0 = \<lparr>visited = wr (replicate (width img * height img) 0) (y * int (width img) + x) 1,
                selected = replicate (width img * height img) 0,
                stack = [(x, y)],
                minX = x, maxX = x, minY = y, maxY = y,
                totalR = Some 0, totalG = Some 0, totalB = Some 0, count = 0\<rparr>"
  have "noWrap img s0"
    using lo hi by (simp add: noWrap_def s0_def lin_def length_wr)
  from fillLoop_terminates [OF v n this, of seed "tol * 4.42 * (tol * 4.42)"]
  obtain t where t: "fillLoop img seed (tol * 4.42 * (tol * 4.42)) s0 = Some t"
    by (elim exE conjE)
  show "\<exists>region. onmessage cancelAfter (MagicSelect img x y tol) = Some [MagicSelectResult region]"
    using t unfolding onmessage_def magicSelect_def seed_def s0_def
    by (simp add: Let_def cong: let_weak_cong)
next
  assume "y * int (width img) + x < 0 \<or> int (width img * height img) \<le> y * int (width img) + x"
  then show "onmessage cancelAfter (MagicSelect img x y tol) =
            Some [MagicSelectResult
                    \<lparr>maskRLE = [],
                     bounds = \<lparr>bounds_x = x, bounds_y = y, bounds_width = 1, bounds_height = 1\<rparr>,
                     pixelCount = 0,
                     averageColor = (None, None, None),
                     regionMode = Remove\<rparr>]"
    by (simp add: onmessage_def magicSelect_seed_index_outside [OF v n lo hi])
qed

section \<open>The job on a buffer of one pixel\<close>

lemmas procEval = processImage_def phase1.simps classifyPixel_def writeMatch_def sampleAt_def
  channel_def rd_def wr_def shl2_def toInt32_def colorDistanceSquared_def thresholdSquared_def
  effectiveThreshold_def useAdvancedEdge_def isCancelled_def chunkSize_def mathRound_def
  clampUint8_def applyRegions_def detectDominantColor_def cornerBlock_def numLt_def Let_def

lemma onePixel_unmatched:
  "processImage None (onePixel 128) (manualHard 10) = [Progress 100, Complete (onePixel 128)]"
  by (simp add: procEval onePixel_def manualHard_def cong: let_weak_cong)

lemma onePixel_matched:
  "processImage cancelAfter (onePixel 255) (manualHard 50) = [Progress 100, Complete (onePixel 0)]"
  by (simp add: procEval onePixel_def manualHard_def cong: let_weak_cong split: option.split)

lemma backgroundCount_onePixel:
  "backgroundCount (onePixel 255) (manualHard 10) = 0"
  "backgroundCount (onePixel 255) (manualHard 50) = 1"
  by (simp_all add: backgroundCount_def isBackground_def manualHard_def onePixel_def sampleAt_def
      channel_def rd_def shl2_def toInt32_def colorDistanceSquared_def thresholdSquared_def
      effectiveThreshold_def detectDominantColor_def cornerBlock_def numLt_def Let_def
      cong: let_weak_cong)

lemma magicSelect_outside:
  "magicSelect (onePixel 255) 1 0 10 =
     Some \<lparr>maskRLE = [],
            bounds = \<lparr>bounds_x = 1, bounds_y = 0, bounds_width = 1, bounds_height = 1\<rparr>,
            pixelCount = 0,
            averageColor = (None, None, None),
            regionMode = Remove\<rparr>"
  by (simp add: magicSelect_def fillLoop.simps fillEval onePixel_def boundsMask_def truthy_def
      encodeMaskToRLE_def average_def cong: let_weak_cong)

text \<open>
  Claim C5. A job on one pixel has a single chunk and yields once, after it. A
  \<^verbatim>\<open>cancel\<close> message handled during that yield sets the flag, but with hard edges the flag
  is not read again: the job posts \<^verbatim>\<open>complete\<close> and no \<^verbatim>\<open>cancelled\<close>.
\<close>

theorem cancel_during_last_yield_completes:
  "isCancelled (Some 0) 1 \<and>
   processImage (Some 0) (onePixel 255) (manualHard 50) = [Progress 100, Complete (onePixel 0)]"
  by (simp add: onePixel_matched isCancelled_def)

theorem processImage_keeps_colours_witness:
  "edgeMode (manualHard 50) \<noteq> Decontaminate \<and>
   Complete (onePixel 0) \<in> set (processImage None (onePixel 255) (manualHard 50)) \<and>
   length (data (onePixel 0)) = length (data (onePixel 255)) \<and>
   data (onePixel 0) ! 0 = data (onePixel 255) ! 0 \<and>
   data (onePixel 0) ! 1 = data (onePixel 255) ! 1 \<and>
   data (onePixel 0) ! 2 = data (onePixel 255) ! 2"
proof -
  have h: "edgeMode (manualHard 50) \<noteq> Decontaminate" by (simp add: manualHard_def)
  have c: "Complete (onePixel 0) \<in> set (processImage None (onePixel 255) (manualHard 50))"
    by (simp add: onePixel_matched)
  note r = processImage_keeps_colours [OF h c]
  note e = r [THEN conjunct2, rule_format]
  have "data (onePixel 0) ! 0 = data (onePixel 255) ! 0" by (rule e) (simp_all add: onePixel_def)
  moreover have "data (onePixel 0) ! 1 = data (onePixel 255) ! 1"
    by (rule e) (simp_all add: onePixel_def)
  moreover have "data (onePixel 0) ! 2 = data (onePixel 255) ! 2"
    by (rule e) (simp_all add: onePixel_def)
  ultimately show ?thesis using h c r [THEN conjunct1] by (intro conjI)
qed

theorem processImage_hard_alpha_witness:
  "edgeMode (manualHard 50) = Hard \<and>
   Complete (onePixel 0) \<in> set (processImage None (onePixel 255) (manualHard 50)) \<and>
   length (data (onePixel 0)) = length (data (onePixel 255)) \<and>
   (data (onePixel 0) ! 3 = 0 \<or> data (onePixel 0) ! 3 = 255 \<or>
    data (onePixel 0) ! 3 = data (onePixel 255) ! 3)"
proof -
  have h: "edgeMode (manualHard 50) = Hard" by (simp add: manualHard_def)
  have c: "Complete (onePixel 0) \<in> set (processImage None (onePixel 255) (manualHard 50))"
    by (simp add: onePixel_matched)
  note r = processImage_hard_alpha [OF h c]
  have "data (onePixel 0) ! 3 = 0 \<or> data (onePixel 0) ! 3 = 255 \<or>
        data (onePixel 0) ! 3 = data (onePixel 255) ! 3"
    by (rule r [THEN conjunct2, THEN conjunct1, rule_format]) (simp_all add: onePixel_def)
  then show ?thesis using h c r [THEN conjunct1] by (intro conjI)
qed

theorem hard_mode_keeps_partial_alpha:
  "edgeMode (manualHard 10) = Hard \<and>
   processImage None (onePixel 128) (manualHard 10) = [Progress 100, Complete (onePixel 128)] \<and>
   data (onePixel 128) ! 3 = 128"
  by (simp add: onePixel_unmatched) (simp add: manualHard_def onePixel_def)

theorem backgroundCount_mono_witness:
  "mode (manualHard 10) = Manual \<and> (0::real) \<le> 10 \<and> (10::real) \<le> 50 \<and>
   backgroundCount (onePixel 255) ((manualHard 10)\<lparr>threshold := 10\<rparr>)
     \<le> backgroundCount (onePixel 255) ((manualHard 10)\<lparr>threshold := 50\<rparr>) \<and>
   backgroundCount (onePixel 255) ((manualHard 10)\<lparr>threshold := 10\<rparr>) = 0 \<and>
   backgroundCount (onePixel 255) ((manualHard 10)\<lparr>threshold := 50\<rparr>) = 1"
proof -
  have m: "mode (manualHard 10) = Manual" by (simp add: manualHard_def)
  have e: "(manualHard 10)\<lparr>threshold := 10\<rparr> = manualHard 10"
    "(manualHard 10)\<lparr>threshold := 50\<rparr> = manualHard 50"
    by (simp_all add: manualHard_def)
  have a: "(0::real) \<le> 10" and b: "(10::real) \<le> 50" by simp_all
  note r = backgroundCount_mono [OF m a b, of "onePixel 255"]
  show ?thesis
    using r backgroundCount_onePixel m unfolding e by simp
qed

theorem magicSelect_never_reports_error_witness:
  "validImageData (onePixel 255) \<and> width (onePixel 255) * height (onePixel 255) \<le> 2 ^ 29 \<and>
   - (2 ^ 29) \<le> 3 * int (width (onePixel 255)) + 2 \<and>
   3 * int (width (onePixel 255)) + 2 < (2 ^ 30 :: int) \<and>
   int (width (onePixel 255) * height (onePixel 255)) \<le> 3 * int (width (onePixel 255)) + 2 \<and>
   (\<exists>region. onmessage None (MagicSelect (onePixel 255) 2 3 10) = Some [MagicSelectResult region]) \<and>
   onmessage None (MagicSelect (onePixel 255) 2 3 10) =
     Some [MagicSelectResult
             \<lparr>maskRLE = [],
              bounds = \<lparr>bounds_x = 2, bounds_y = 3, bounds_width = 1, bounds_height = 1\<rparr>,
              pixelCount = 0,
              averageColor = (None, None, None),
              regionMode = Remove\<rparr>]"
proof -
  have v: "validImageData (onePixel 255)" by (simp add: validImageData_def onePixel_def)
  have n: "width (onePixel 255) * height (onePixel 255) \<le> 2 ^ 29" by (simp add: onePixel_def)
  have lo: "- (2 ^ 29) \<le> 3 * int (width (onePixel 255)) + 2" by simp
  have hi: "3 * int (width (onePixel 255)) + 2 < (2 ^ 30 :: int)" by (simp add: onePixel_def)
  have out: "int (width (onePixel 255) * height (onePixel 255)) \<le> 3 * int (width (onePixel 255)) + 2"
    by (simp add: onePixel_def)
  note r = magicSelect_never_reports_error [OF v n lo hi, of None 10]
  note e = r [THEN conjunct2, rule_format, OF disjI2, OF out]
  show ?thesis by (intro conjI v n lo hi out r [THEN conjunct1] e)
qed

theorem magicSelect_seed_outside_gives_result:
  "\<not> (1::int) < int (width (onePixel 255)) \<and>
   onmessage None (MagicSelect (onePixel 255) 1 0 10) =
     Some [MagicSelectResult
             \<lparr>maskRLE = [],
              bounds = \<lparr>bounds_x = 1, bounds_y = 0, bounds_width = 1, bounds_height = 1\<rparr>,
              pixelCount = 0,
              averageColor = (None, None, None),
              regionMode = Remove\<rparr>]"
  by (simp add: onmessage_def magicSelect_outside) (simp add: onePixel_def)

end
